theory Spec2Isabelle
  imports Main
begin

section \<open>Promises for Go: a sequential model of promise.go\<close>

text \<open>
  The development embeds \<^verbatim>\<open>promise.go\<close>. Every exported and unexported method of
  \<^verbatim>\<open>Promise\<close> takes the promise's mutex for the whole call, so each call is one atomic
  step on the promise; the model passes the promise record through these steps and
  leaves the mutex out. The goroutine started by \<^verbatim>\<open>New\<close> is a separate step
  (\<open>goroutine\<close>) that the caller of the model places among the other steps.

  Three outcomes of a call are told apart: it returns, it panics, or it never returns
  (\<^verbatim>\<open>WaitGroup.Wait\<close> on a counter nobody releases).
\<close>

subsection \<open>Values, errors, executors\<close>

datatype pstate = pending | fulfilled | rejected

text \<open>A Go \<^verbatim>\<open>error\<close> built by \<^verbatim>\<open>errors.New\<close>; the interface value is an option,
  \<open>None\<close> for \<^verbatim>\<open>nil\<close>.\<close>

datatype goerror = errors_New string

fun Error :: "goerror \<Rightarrow> string" where
  "Error (errors_New s) = s"

text \<open>Values of type \<^verbatim>\<open>interface{}\<close>: \<^verbatim>\<open>nil\<close>, integers, strings, errors, and pointers
  to promises (an address in the heap of the world below).\<close>

datatype val = VNil | VInt int | VStr string | VErr goerror | VPromise nat

text \<open>
  An executor is Go code receiving \<^verbatim>\<open>resolve\<close> and \<^verbatim>\<open>reject\<close>. What the promise sees
  of it is the sequence of calls it makes and how it ends: by returning (or by never
  doing anything more), or by a panic; \<open>Panics r\<close> carries the value \<open>r\<close> that
  \<^verbatim>\<open>recover()\<close> yields in the deferred \<^verbatim>\<open>handlePanic\<close>. Since Go 1.21 that value
  is never \<^verbatim>\<open>nil\<close> while a panic is under way; before, \<^verbatim>\<open>panic(nil)\<close> made
  \<^verbatim>\<open>recover()\<close> yield \<^verbatim>\<open>nil\<close>, which \<^verbatim>\<open>handlePanic\<close> takes for no panic at all.
\<close>

datatype action = Call_resolve val | Call_reject "goerror option"

datatype ending = Returns | Panics val

datatype exec = Exec (calls: "action list") (ending: ending)

datatype fault = Negative_WaitGroup | Type_assertion | Nil_pointer | Beyond_model

datatype 'a run = Ok 'a | Crash fault | Blocked

fun bnd :: "'a run \<Rightarrow> ('a \<Rightarrow> 'b run) \<Rightarrow> 'b run" where
  "bnd (Ok a) f = f a"
| "bnd (Crash c) f = Crash c"
| "bnd Blocked f = Blocked"

subsection \<open>The Promise struct\<close>

text \<open>
  The struct of the source, without its mutex. The handler slices are polymorphic in
  what a handler is: function names for handlers given by the user, and the two
  closures of \<^verbatim>\<open>resolve\<close> for a promise that a handler returned. \<open>wg\<close> is the counter
  of the \<^verbatim>\<open>sync.WaitGroup\<close>.
\<close>

record ('t, 'c) promise =
  state :: pstate
  executor :: exec
  thens :: "'t list"
  catches :: "'c list"
  result :: val
  error :: "goerror option"
  wg :: nat

definition New :: "exec \<Rightarrow> ('t, 'c) promise" where
  "New ex = \<lparr> state = pending, executor = ex, thens = [], catches = [],
              result = VNil, error = None, wg = 0 \<rparr>"

text \<open>\<^verbatim>\<open>wg.Add(1)\<close> and \<^verbatim>\<open>wg.Done()\<close>; the latter panics when the counter would go
  below zero.\<close>

definition wg_Add :: "nat \<Rightarrow> ('t, 'c) promise \<Rightarrow> ('t, 'c) promise" where
  "wg_Add n p = p\<lparr> wg := wg p + n \<rparr>"

definition wg_Done :: "('t, 'c) promise \<Rightarrow> ('t, 'c) promise run" where
  "wg_Done p = (if wg p = 0 then Crash Negative_WaitGroup else Ok (p\<lparr> wg := wg p - 1 \<rparr>))"

text \<open>A loop whose body is only \<^verbatim>\<open>promise.wg.Done()\<close>, run \<open>n\<close> times.\<close>

fun release :: "nat \<Rightarrow> ('t, 'c) promise \<Rightarrow> ('t, 'c) promise run" where
  "release 0 p = Ok p"
| "release (Suc n) p = bnd (wg_Done p) (release n)"

text \<open>\<^verbatim>\<open>wg.Wait()\<close>, when no other goroutine is left to release the counter.\<close>

definition Await :: "('t, 'c) promise \<Rightarrow> unit run" where
  "Await p = (if wg p = 0 then Ok () else Blocked)"

subsection \<open>Then, Catch, reject, resolve\<close>

text \<open>
  The methods are generic in how a handler is called: \<open>ct h v w\<close> calls the fulfillment
  handler \<open>h\<close> on \<open>v\<close> in the surroundings \<open>w\<close> (everything but the promise itself
  that the handler can change), \<open>cc\<close> does so for a rejection handler.
\<close>

definition Then ::
  "('t \<Rightarrow> val \<Rightarrow> 'w \<Rightarrow> (val \<times> 'w) run) \<Rightarrow> 't \<Rightarrow> ('t, 'c) promise \<Rightarrow> 'w
     \<Rightarrow> (('t, 'c) promise \<times> 'w) run" where
  "Then ct fulfillment p w =
     (if state p = pending then
        Ok ((wg_Add 1 p)\<lparr> thens := thens p @ [fulfillment] \<rparr>, w)
      else if state p = fulfilled then
        bnd (ct fulfillment (result p) w) (\<lambda>(r, w'). Ok (p\<lparr> result := r \<rparr>, w'))
      else Ok (p, w))"

definition Catch ::
  "('c \<Rightarrow> goerror option \<Rightarrow> 'w \<Rightarrow> (goerror option \<times> 'w) run) \<Rightarrow> 'c \<Rightarrow> ('t, 'c) promise \<Rightarrow> 'w
     \<Rightarrow> (('t, 'c) promise \<times> 'w) run" where
  "Catch cc rejection p w =
     (if state p = pending then
        Ok ((wg_Add 1 p)\<lparr> catches := catches p @ [rejection] \<rparr>, w)
      else if state p = rejected then
        bnd (cc rejection (error p) w) (\<lambda>(e, w'). Ok (p\<lparr> error := e \<rparr>, w'))
      else Ok (p, w))"

text \<open>The loop of \<^verbatim>\<open>reject\<close> over \<^verbatim>\<open>promise.catch\<close>.\<close>

fun catch_loop ::
  "('c \<Rightarrow> goerror option \<Rightarrow> 'w \<Rightarrow> (goerror option \<times> 'w) run) \<Rightarrow> 'c list \<Rightarrow> ('t, 'c) promise \<Rightarrow> 'w
     \<Rightarrow> (('t, 'c) promise \<times> 'w) run" where
  "catch_loop cc [] p w = Ok (p, w)"
| "catch_loop cc (h # hs) p w =
     bnd (cc h (error p) w) (\<lambda>(e, w').
     bnd (wg_Done (p\<lparr> error := e \<rparr>)) (\<lambda>p'.
     catch_loop cc hs p' w'))"

definition reject ::
  "('c \<Rightarrow> goerror option \<Rightarrow> 'w \<Rightarrow> (goerror option \<times> 'w) run) \<Rightarrow> ('t, 'c) promise
     \<Rightarrow> goerror option \<Rightarrow> 'w \<Rightarrow> (('t, 'c) promise \<times> 'w) run" where
  "reject cc p err w =
     (if state p \<noteq> pending then Ok (p, w)
      else
        bnd (release (length (thens p)) p) (\<lambda>p1.
        bnd (catch_loop cc (catches p1) (p1\<lparr> error := err \<rparr>) w) (\<lambda>(p2, w2).
        Ok (p2\<lparr> state := rejected \<rparr>, w2))))"

text \<open>
  The loop of \<^verbatim>\<open>resolve\<close> over \<^verbatim>\<open>promise.then\<close>. \<open>fl dc p w\<close> is the body of
  \<^verbatim>\<open>if thenPromise, ok := promise.result.(*Promise); ok { ... }\<close> together with the test:
  it returns the promise, the surroundings and \<^verbatim>\<open>isRejected\<close>. The loop returns
  whether it was left by \<^verbatim>\<open>return\<close>.
\<close>

fun then_loop ::
  "('t \<Rightarrow> val \<Rightarrow> 'w \<Rightarrow> (val \<times> 'w) run)
     \<Rightarrow> (nat \<Rightarrow> ('t, 'c) promise \<Rightarrow> 'w \<Rightarrow> (('t, 'c) promise \<times> 'w \<times> bool) run)
     \<Rightarrow> 't list \<Rightarrow> nat \<Rightarrow> ('t, 'c) promise \<Rightarrow> 'w \<Rightarrow> (('t, 'c) promise \<times> 'w \<times> bool) run" where
  "then_loop ct fl [] doneCounter p w = Ok (p, w, False)"
| "then_loop ct fl (h # hs) doneCounter p w =
     bnd (ct h (result p) w) (\<lambda>(r, w1).
     bnd (fl doneCounter (p\<lparr> result := r \<rparr>) w1) (\<lambda>(p2, w2, isRejected).
       if isRejected then Ok (p2, w2, True)
       else bnd (wg_Done p2) (\<lambda>p3. then_loop ct fl hs (doneCounter + 1) p3 w2)))"

definition resolve ::
  "('t \<Rightarrow> val \<Rightarrow> 'w \<Rightarrow> (val \<times> 'w) run)
     \<Rightarrow> (nat \<Rightarrow> ('t, 'c) promise \<Rightarrow> 'w \<Rightarrow> (('t, 'c) promise \<times> 'w \<times> bool) run)
     \<Rightarrow> ('t, 'c) promise \<Rightarrow> val \<Rightarrow> 'w \<Rightarrow> (('t, 'c) promise \<times> 'w) run" where
  "resolve ct fl p resolution w =
     (if state p \<noteq> pending then Ok (p, w)
      else
        bnd (then_loop ct fl (thens p) 0 (p\<lparr> state := fulfilled, result := resolution \<rparr>) w)
          (\<lambda>(p1, w1, returned).
             if returned then Ok (p1, w1)
             else bnd (release (length (catches p1)) p1) (\<lambda>p2. Ok (p2, w1))))"

subsection \<open>handlePanic and the goroutine of New\<close>

text \<open>\<open>r\<close> is what \<^verbatim>\<open>recover()\<close> returned; \<^verbatim>\<open>r.(string)\<close> panics unless \<open>r\<close> is a
  string.\<close>

definition handlePanic ::
  "('c \<Rightarrow> goerror option \<Rightarrow> 'w \<Rightarrow> (goerror option \<times> 'w) run) \<Rightarrow> ('t, 'c) promise \<Rightarrow> val \<Rightarrow> 'w
     \<Rightarrow> (('t, 'c) promise \<times> 'w) run" where
  "handlePanic cc p r w =
     (if r \<noteq> VNil then
        (case r of VStr s \<Rightarrow> reject cc p (Some (errors_New s)) w
                 | _ \<Rightarrow> Crash Type_assertion)
      else Ok (p, w))"

fun run_calls ::
  "('t \<Rightarrow> val \<Rightarrow> 'w \<Rightarrow> (val \<times> 'w) run)
     \<Rightarrow> ('c \<Rightarrow> goerror option \<Rightarrow> 'w \<Rightarrow> (goerror option \<times> 'w) run)
     \<Rightarrow> (nat \<Rightarrow> ('t, 'c) promise \<Rightarrow> 'w \<Rightarrow> (('t, 'c) promise \<times> 'w \<times> bool) run)
     \<Rightarrow> action list \<Rightarrow> ('t, 'c) promise \<Rightarrow> 'w \<Rightarrow> (('t, 'c) promise \<times> 'w) run" where
  "run_calls ct cc fl [] p w = Ok (p, w)"
| "run_calls ct cc fl (Call_resolve v # as) p w =
     bnd (resolve ct fl p v w) (\<lambda>(p', w'). run_calls ct cc fl as p' w')"
| "run_calls ct cc fl (Call_reject e # as) p w =
     bnd (reject cc p e w) (\<lambda>(p', w'). run_calls ct cc fl as p' w')"

text \<open>
  The body of the goroutine of \<^verbatim>\<open>New\<close>:
  \<^verbatim>\<open>defer promise.handlePanic(); promise.executor(promise.resolve, promise.reject)\<close>.
  When the executor returns, \<^verbatim>\<open>recover()\<close> yields \<^verbatim>\<open>nil\<close>.
\<close>

definition goroutine ::
  "('t \<Rightarrow> val \<Rightarrow> 'w \<Rightarrow> (val \<times> 'w) run)
     \<Rightarrow> ('c \<Rightarrow> goerror option \<Rightarrow> 'w \<Rightarrow> (goerror option \<times> 'w) run)
     \<Rightarrow> (nat \<Rightarrow> ('t, 'c) promise \<Rightarrow> 'w \<Rightarrow> (('t, 'c) promise \<times> 'w \<times> bool) run)
     \<Rightarrow> ('t, 'c) promise \<Rightarrow> 'w \<Rightarrow> (('t, 'c) promise \<times> 'w) run" where
  "goroutine ct cc fl p w =
     bnd (run_calls ct cc fl (calls (executor p)) p w) (\<lambda>(p', w').
       case ending (executor p) of
         Returns \<Rightarrow> handlePanic cc p' VNil w'
       | Panics r \<Rightarrow> handlePanic cc p' r w')"

subsection \<open>Handlers given by the user\<close>

text \<open>
  A handler of the user is a function name; the environment says what the named
  function computes. A fulfillment handler returns a value, or the promise it has just
  made with \<^verbatim>\<open>New\<close> (\<open>Ret_New\<close>, as the handlers of the tests do); a pointer to an
  older promise is an ordinary value. Handlers are total: a handler that panics or does
  not return is outside this development. Every call of a handler is written to the
  log, which is how "invoked", "never invoked" and "receives" are stated.
\<close>

type_synonym fname = nat

datatype ret = Ret val | Ret_New exec

datatype event = Then_call fname val | Catch_call fname "goerror option"

record env =
  then_fn :: "fname \<Rightarrow> val \<Rightarrow> ret"
  catch_fn :: "fname \<Rightarrow> goerror option \<Rightarrow> goerror option"

datatype kthen = Cont_then

datatype kcatch = Cont_catch

type_synonym upromise = "(fname, fname) promise"

type_synonym npromise = "(kthen, kcatch) promise"

text \<open>The heap holds the promises made by handlers; a promise made by a handler starts
  with no handlers of its own.\<close>

record world =
  heap :: "npromise list"
  log :: "event list"

definition call_then :: "env \<Rightarrow> fname \<Rightarrow> val \<Rightarrow> world \<Rightarrow> (val \<times> world) run" where
  "call_then env h v w =
     (case then_fn env h v of
        Ret r \<Rightarrow> Ok (r, w\<lparr> log := log w @ [Then_call h v] \<rparr>)
      | Ret_New ex \<Rightarrow>
          Ok (VPromise (length (heap w)),
              w\<lparr> heap := heap w @ [New ex], log := log w @ [Then_call h v] \<rparr>))"

definition call_catch ::
  "env \<Rightarrow> fname \<Rightarrow> goerror option \<Rightarrow> world \<Rightarrow> (goerror option \<times> world) run" where
  "call_catch env h e w = Ok (catch_fn env h e, w\<lparr> log := log w @ [Catch_call h e] \<rparr>)"

subsection \<open>The two closures of resolve\<close>

text \<open>
  Inside \<^verbatim>\<open>resolve\<close>, two closures are handed to the returned promise. They capture
  the outer \<^verbatim>\<open>promise\<close>, \<^verbatim>\<open>isRejected\<close> and \<^verbatim>\<open>doneCounter\<close>: the frame.
\<close>

record frame =
  outer :: upromise
  isRejected :: bool
  doneCounter :: nat
  fworld :: world

text \<open>\<^verbatim>\<open>func(result interface{}) interface{} { promise.result = result; return nil }\<close>\<close>

definition k_then :: "kthen \<Rightarrow> val \<Rightarrow> frame \<Rightarrow> (val \<times> frame) run" where
  "k_then k res fr = Ok (VNil, fr\<lparr> outer := (outer fr)\<lparr> result := res \<rparr> \<rparr>)"

text \<open>The second loop of the rejection closure: it threads \<^verbatim>\<open>chainError\<close> and does not
  store it in the promise.\<close>

fun chain_loop ::
  "env \<Rightarrow> fname list \<Rightarrow> goerror option \<Rightarrow> upromise \<Rightarrow> world
     \<Rightarrow> (goerror option \<times> upromise \<times> world) run" where
  "chain_loop env [] chainError p w = Ok (chainError, p, w)"
| "chain_loop env (h # hs) chainError p w =
     bnd (call_catch env h chainError w) (\<lambda>(e, w').
     bnd (wg_Done p) (\<lambda>p'.
     chain_loop env hs e p' w'))"

definition k_catch :: "env \<Rightarrow> kcatch \<Rightarrow> goerror option \<Rightarrow> frame \<Rightarrow> (goerror option \<times> frame) run" where
  "k_catch env k err fr =
     (let fr1 = fr\<lparr> isRejected := True \<rparr>; p = outer fr1 in
      bnd (release (length (thens p) - doneCounter fr1) p) (\<lambda>p1.
      bnd (chain_loop env (catches p1) err p1 (fworld fr1)) (\<lambda>(chainError, p2, w2).
      Ok (chainError, fr1\<lparr> outer := p2, fworld := w2 \<rparr>))))"

text \<open>
  The closures return \<^verbatim>\<open>nil\<close> and an error, never a promise, so when the returned
  promise runs its own \<^verbatim>\<open>resolve\<close> the type test on the result fails. The branch is
  kept as a fault that \<open>inner_then_loop_no_fault\<close> below shows is not reached.
\<close>

definition no_flatten :: "nat \<Rightarrow> npromise \<Rightarrow> frame \<Rightarrow> (npromise \<times> frame \<times> bool) run" where
  "no_flatten dc n fr =
     (case result n of VPromise a \<Rightarrow> Crash Beyond_model | _ \<Rightarrow> Ok (n, fr, False))"

subsection \<open>Flattening in resolve\<close>

text \<open>
  The executor of the returned promise runs in its own goroutine. Its calls take the
  returned promise's mutex, so they take effect at one of three moments: before the
  outer \<^verbatim>\<open>resolve\<close> calls \<^verbatim>\<open>Then\<close> on it, between that \<^verbatim>\<open>Then\<close> and the \<^verbatim>\<open>Catch\<close>,
  or while the outer \<^verbatim>\<open>resolve\<close> sits in \<^verbatim>\<open>Await\<close>. The moment is a parameter.
\<close>

datatype moment = Before_Then | Before_Catch | During_Await

definition at_moment ::
  "env \<Rightarrow> moment \<Rightarrow> moment \<Rightarrow> npromise \<Rightarrow> frame \<Rightarrow> (npromise \<times> frame) run" where
  "at_moment env sc m n fr =
     (if sc = m then goroutine k_then (k_catch env) no_flatten n fr else Ok (n, fr))"

definition flatten ::
  "env \<Rightarrow> moment \<Rightarrow> nat \<Rightarrow> upromise \<Rightarrow> world \<Rightarrow> (upromise \<times> world \<times> bool) run" where
  "flatten env sc dc p w =
     (case result p of
        VPromise a \<Rightarrow>
          if length (heap w) \<le> a then Crash Nil_pointer
          else
            bnd (at_moment env sc Before_Then (heap w ! a)
                   \<lparr> outer = p, isRejected = False, doneCounter = dc, fworld = w \<rparr>) (\<lambda>(n1, fr1).
            bnd (Then k_then Cont_then n1 fr1) (\<lambda>(n2, fr2).
            bnd (at_moment env sc Before_Catch n2 fr2) (\<lambda>(n3, fr3).
            bnd (Catch (k_catch env) Cont_catch n3 fr3) (\<lambda>(n4, fr4).
            bnd (at_moment env sc During_Await n4 fr4) (\<lambda>(n5, fr5).
            bnd (Await n5) (\<lambda>_.
            Ok (outer fr5,
                (fworld fr5)\<lparr> heap := (heap (fworld fr5))[a := n5] \<rparr>,
                isRejected fr5)))))))
      | _ \<Rightarrow> Ok (p, w, False))"

subsection \<open>The methods on a promise of the user\<close>

definition u_Then :: "env \<Rightarrow> fname \<Rightarrow> upromise \<Rightarrow> world \<Rightarrow> (upromise \<times> world) run" where
  "u_Then env = Then (call_then env)"

definition u_Catch :: "env \<Rightarrow> fname \<Rightarrow> upromise \<Rightarrow> world \<Rightarrow> (upromise \<times> world) run" where
  "u_Catch env = Catch (call_catch env)"

definition u_resolve ::
  "env \<Rightarrow> moment \<Rightarrow> upromise \<Rightarrow> val \<Rightarrow> world \<Rightarrow> (upromise \<times> world) run" where
  "u_resolve env sc = resolve (call_then env) (flatten env sc)"

definition u_reject ::
  "env \<Rightarrow> upromise \<Rightarrow> goerror option \<Rightarrow> world \<Rightarrow> (upromise \<times> world) run" where
  "u_reject env = reject (call_catch env)"

definition u_handlePanic :: "env \<Rightarrow> upromise \<Rightarrow> val \<Rightarrow> world \<Rightarrow> (upromise \<times> world) run" where
  "u_handlePanic env = handlePanic (call_catch env)"

definition u_goroutine :: "env \<Rightarrow> moment \<Rightarrow> upromise \<Rightarrow> world \<Rightarrow> (upromise \<times> world) run" where
  "u_goroutine env sc = goroutine (call_then env) (call_catch env) (flatten env sc)"

subsection \<open>Programs over one promise\<close>

text \<open>
  What a client and the scheduler do with one promise: register handlers, and let the
  goroutine of \<^verbatim>\<open>New\<close> run.
\<close>

datatype step = Do_Then fname | Do_Catch fname | Run_goroutine

fun do_step :: "env \<Rightarrow> moment \<Rightarrow> step \<Rightarrow> upromise \<Rightarrow> world \<Rightarrow> (upromise \<times> world) run" where
  "do_step env sc (Do_Then h) p w = u_Then env h p w"
| "do_step env sc (Do_Catch h) p w = u_Catch env h p w"
| "do_step env sc Run_goroutine p w = u_goroutine env sc p w"

fun steps :: "env \<Rightarrow> moment \<Rightarrow> step list \<Rightarrow> upromise \<Rightarrow> world \<Rightarrow> (upromise \<times> world) run" where
  "steps env sc [] p w = Ok (p, w)"
| "steps env sc (s # ss) p w = bnd (do_step env sc s p w) (\<lambda>(p', w'). steps env sc ss p' w')"

fun registered_thens :: "step list \<Rightarrow> fname list" where
  "registered_thens [] = []"
| "registered_thens (Do_Then h # ss) = h # registered_thens ss"
| "registered_thens (s # ss) = registered_thens ss"

fun registered_catches :: "step list \<Rightarrow> fname list" where
  "registered_catches [] = []"
| "registered_catches (Do_Catch h # ss) = h # registered_catches ss"
| "registered_catches (s # ss) = registered_catches ss"

subsection \<open>Vocabulary of the properties\<close>

text \<open>The calls that a run of rejection handlers \<open>hs\<close> on the error \<open>e\<close> writes to the
  log: each handler once, in order, on what its predecessor returned.\<close>

fun catch_trace :: "env \<Rightarrow> fname list \<Rightarrow> goerror option \<Rightarrow> event list" where
  "catch_trace env [] e = []"
| "catch_trace env (h # hs) e = Catch_call h e # catch_trace env hs (catch_fn env h e)"

definition chain_result :: "env \<Rightarrow> fname list \<Rightarrow> goerror option \<Rightarrow> goerror option" where
  "chain_result env hs e = foldl (\<lambda>e h. catch_fn env h e) e hs"

fun then_names :: "event list \<Rightarrow> fname list" where
  "then_names [] = []"
| "then_names (Then_call h v # evs) = h # then_names evs"
| "then_names (Catch_call h e # evs) = then_names evs"

fun catch_names :: "event list \<Rightarrow> fname list" where
  "catch_names [] = []"
| "catch_names (Then_call h v # evs) = catch_names evs"
| "catch_names (Catch_call h e # evs) = h # catch_names evs"

text \<open>A promise in the heap is as a handler made it, with no handlers of its own, or
  it has settled.\<close>

definition fresh_or_settled :: "npromise \<Rightarrow> bool" where
  "fresh_or_settled n = (state n = pending \<longrightarrow> thens n = [] \<and> catches n = [])"

definition heap_ok :: "world \<Rightarrow> bool" where
  "heap_ok w = list_all fresh_or_settled (heap w)"

text \<open>Whether \<^verbatim>\<open>resolve\<close> left its loop by the \<^verbatim>\<open>return\<close> under \<^verbatim>\<open>isRejected\<close>.\<close>

definition returned_early :: "env \<Rightarrow> moment \<Rightarrow> upromise \<Rightarrow> val \<Rightarrow> world \<Rightarrow> bool" where
  "returned_early env sc p v w =
     (case then_loop (call_then env) (flatten env sc) (thens p) 0
             (p\<lparr> state := fulfilled, result := v \<rparr>) w of
        Ok (p1, w1, b) \<Rightarrow> b
      | _ \<Rightarrow> False)"

text \<open>The promise that \<^verbatim>\<open>New(func(resolve, reject) { resolve(v) })\<close> has become once the
  outer \<^verbatim>\<open>resolve\<close> is through with it, and likewise for \<^verbatim>\<open>reject(e)\<close>: the closures
  stay in its slices when they were registered before it settled.\<close>

definition after_resolve :: "moment \<Rightarrow> val \<Rightarrow> npromise" where
  "after_resolve sc v =
     \<lparr> state = fulfilled, executor = Exec [Call_resolve v] Returns,
       thens = (if sc = Before_Then then [] else [Cont_then]),
       catches = (if sc = During_Await then [Cont_catch] else []),
       result = VNil, error = None, wg = 0 \<rparr>"

definition after_reject :: "env \<Rightarrow> moment \<Rightarrow> fname list \<Rightarrow> goerror option \<Rightarrow> npromise" where
  "after_reject env sc cs e =
     \<lparr> state = rejected, executor = Exec [Call_reject e] Returns,
       thens = (if sc = Before_Then then [] else [Cont_then]),
       catches = (if sc = During_Await then [Cont_catch] else []),
       result = VNil, error = chain_result env cs e, wg = 0 \<rparr>"

subsection \<open>Predicates used in the proofs\<close>

text \<open>\<open>keeps f Q\<close>: calling a handler through \<open>f\<close> preserves the property \<open>Q\<close> of the
  surroundings; \<open>keeps_fl\<close> says the same of the flattening step. \<open>kept p p'\<close>: the two
  promises differ at most in \<open>result\<close> and \<open>wg\<close>.\<close>

definition keeps :: "('a \<Rightarrow> 'b \<Rightarrow> 'w \<Rightarrow> ('x \<times> 'w) run) \<Rightarrow> ('w \<Rightarrow> bool) \<Rightarrow> bool" where
  "keeps f Q = (\<forall>a b w x w'. f a b w = Ok (x, w') \<longrightarrow> Q w \<longrightarrow> Q w')"

definition keeps_fl :: "(nat \<Rightarrow> 'p \<Rightarrow> 'w \<Rightarrow> ('p \<times> 'w \<times> bool) run) \<Rightarrow> ('w \<Rightarrow> bool) \<Rightarrow> bool" where
  "keeps_fl fl Q = (\<forall>dc p w p' w' b. fl dc p w = Ok (p', w', b) \<longrightarrow> Q w \<longrightarrow> Q w')"

definition kept :: "('t, 'c) promise \<Rightarrow> ('t, 'c) promise \<Rightarrow> bool" where
  "kept p p' = (state p' = state p \<and> executor p' = executor p \<and> thens p' = thens p
                 \<and> catches p' = catches p \<and> error p' = error p)"

text \<open>What one pass through the flattening branch of \<^verbatim>\<open>resolve\<close> does when it
  returns: either the result alone changed and nothing was logged, or \<^verbatim>\<open>isRejected\<close>
  is set, the remaining units of the fulfillment handlers and one unit per rejection
  handler were released, and the rejection handlers were logged.\<close>

definition flat_post :: "env \<Rightarrow> nat \<Rightarrow> upromise \<Rightarrow> world \<Rightarrow> upromise \<Rightarrow> world \<Rightarrow> bool \<Rightarrow> bool" where
  "flat_post env dc p w p' w' b =
     (length (heap w') = length (heap w) \<and> heap_ok w' \<and>
      (if b then
         length (thens p) - dc + length (catches p) \<le> wg p
         \<and> p' = p\<lparr> wg := wg p - (length (thens p) - dc + length (catches p)) \<rparr>
         \<and> (\<exists>e. log w' = log w @ catch_trace env (catches p) e)
       else (\<exists>v. p' = p\<lparr> result := v \<rparr>) \<and> log w' = log w))"

subsection \<open>Sample handlers and promises\<close>

text \<open>The handlers of the repository's tests, by number: fulfillment handlers
  \<open>0\<close> (adds one), \<open>1\<close> (returns \<^verbatim>\<open>nil\<close>), \<open>2\<close> (returns a promise that resolves
  228), \<open>4\<close> (returns a promise that rejects), any other (returns its argument);
  rejection handlers \<open>0\<close> (replaces "very serious error"), \<open>1\<close> (returns \<^verbatim>\<open>nil\<close>),
  any other (returns its argument).\<close>

definition demo_env :: env where
  "demo_env =
     \<lparr> then_fn = (\<lambda>h v.
         if h = 0 then (case v of VInt i \<Rightarrow> Ret (VInt (i + 1)) | _ \<Rightarrow> Ret VNil)
         else if h = 1 then Ret VNil
         else if h = 2 then Ret_New (Exec [Call_resolve (VInt 228)] Returns)
         else if h = 4 then Ret_New (Exec [Call_reject (Some (errors_New ''ERROR!''))] Returns)
         else Ret v),
       catch_fn = (\<lambda>h e.
         if h = 0 then
           (if e = Some (errors_New ''very serious error'')
            then Some (errors_New ''dealing with error at this stage'') else None)
         else if h = 1 then None
         else e) \<rparr>"

definition empty_world :: world where
  "empty_world = \<lparr> heap = [], log = [] \<rparr>"

definition registered :: "exec \<Rightarrow> fname list \<Rightarrow> fname list \<Rightarrow> upromise" where
  "registered ex ts cs =
     \<lparr> state = pending, executor = ex, thens = ts, catches = cs,
       result = VNil, error = None, wg = length ts + length cs \<rparr>"

definition settled_with :: "val \<Rightarrow> upromise" where
  "settled_with v =
     \<lparr> state = fulfilled, executor = Exec [Call_resolve v] Returns, thens = [], catches = [],
       result = v, error = None, wg = 0 \<rparr>"

definition failed_with :: "goerror option \<Rightarrow> upromise" where
  "failed_with e =
     \<lparr> state = rejected, executor = Exec [Call_reject e] Returns, thens = [], catches = [],
       result = VNil, error = e, wg = 0 \<rparr>"

section \<open>Basic facts\<close>


lemma bnd_eq_Ok: "bnd m f = Ok x \<longleftrightarrow> (\<exists>a. m = Ok a \<and> f a = Ok x)"
  by (cases m) auto

lemma keepsD: "keeps f Q \<Longrightarrow> f a b w = Ok (x, w') \<Longrightarrow> Q w \<Longrightarrow> Q w'"
  unfolding keeps_def by blast

lemma keeps_flD: "keeps_fl fl Q \<Longrightarrow> fl dc p w = Ok (p', w', b) \<Longrightarrow> Q w \<Longrightarrow> Q w'"
  unfolding keeps_fl_def by blast

lemma inv_catch_loop:
  "keeps cc Q \<Longrightarrow> catch_loop cc hs p w = Ok (p', w') \<Longrightarrow> Q w \<Longrightarrow> Q w'"
proof (induction hs arbitrary: p w)
  case Nil
  then show ?case by simp
next
  case (Cons h hs)
  from Cons.prems(2) obtain e w1 p1 where
    a: "cc h (error p) w = Ok (e, w1)" and b: "catch_loop cc hs p1 w1 = Ok (p', w')"
    by (auto simp: bnd_eq_Ok)
  have "Q w1" using Cons.prems(1) a Cons.prems(3) by (rule keepsD)
  with Cons.IH [OF Cons.prems(1) b] show ?case .
qed

lemma inv_reject:
  "keeps cc Q \<Longrightarrow> reject cc p e w = Ok (p', w') \<Longrightarrow> Q w \<Longrightarrow> Q w'"
  by (auto simp: reject_def bnd_eq_Ok split: if_splits dest: inv_catch_loop)

lemma inv_then_loop:
  "keeps ct Q \<Longrightarrow> keeps_fl fl Q \<Longrightarrow> then_loop ct fl hs dc p w = Ok (p', w', b) \<Longrightarrow> Q w \<Longrightarrow> Q w'"
proof (induction hs arbitrary: dc p w)
  case Nil
  then show ?case by simp
next
  case (Cons h hs)
  from Cons.prems(3) obtain r w1 p2 w2 isRej where
    a: "ct h (result p) w = Ok (r, w1)" and
    b: "fl dc (p\<lparr> result := r \<rparr>) w1 = Ok (p2, w2, isRej)" and
    c: "(if isRej then Ok (p2, w2, True)
         else bnd (wg_Done p2) (\<lambda>p3. then_loop ct fl hs (dc + 1) p3 w2)) = Ok (p', w', b)"
    by (auto simp: bnd_eq_Ok)
  have "Q w1" using Cons.prems(1) a Cons.prems(4) by (rule keepsD)
  with Cons.prems(2) b have q2: "Q w2" by (rule keeps_flD)
  show ?case
  proof (cases isRej)
    case True
    with c q2 show ?thesis by simp
  next
    case False
    with c obtain p3 where "then_loop ct fl hs (dc + 1) p3 w2 = Ok (p', w', b)"
      by (auto simp: bnd_eq_Ok)
    from Cons.IH [OF Cons.prems(1,2) this q2] show ?thesis .
  qed
qed

lemma inv_resolve:
  "keeps ct Q \<Longrightarrow> keeps_fl fl Q \<Longrightarrow> resolve ct fl p v w = Ok (p', w') \<Longrightarrow> Q w \<Longrightarrow> Q w'"
  by (auto simp: resolve_def bnd_eq_Ok split: if_splits dest: inv_then_loop)

lemma inv_run_calls:
  "keeps ct Q \<Longrightarrow> keeps cc Q \<Longrightarrow> keeps_fl fl Q \<Longrightarrow>
   run_calls ct cc fl as p w = Ok (p', w') \<Longrightarrow> Q w \<Longrightarrow> Q w'"
proof (induction as arbitrary: p w)
  case Nil
  then show ?case by simp
next
  case (Cons a as)
  show ?case
  proof (cases a)
    case (Call_resolve v)
    with Cons.prems(4) obtain p1 w1 where
      a: "resolve ct fl p v w = Ok (p1, w1)" and b: "run_calls ct cc fl as p1 w1 = Ok (p', w')"
      by (auto simp: bnd_eq_Ok)
    from Cons.prems(1,3) a Cons.prems(5) have "Q w1" by (rule inv_resolve)
    with Cons.IH [OF Cons.prems(1,2,3) b] show ?thesis .
  next
    case (Call_reject e)
    with Cons.prems(4) obtain p1 w1 where
      a: "reject cc p e w = Ok (p1, w1)" and b: "run_calls ct cc fl as p1 w1 = Ok (p', w')"
      by (auto simp: bnd_eq_Ok)
    from Cons.prems(2) a Cons.prems(5) have "Q w1" by (rule inv_reject)
    with Cons.IH [OF Cons.prems(1,2,3) b] show ?thesis .
  qed
qed

lemma inv_handlePanic:
  "keeps cc Q \<Longrightarrow> handlePanic cc p r w = Ok (p', w') \<Longrightarrow> Q w \<Longrightarrow> Q w'"
  by (auto simp: handlePanic_def split: if_splits val.splits dest: inv_reject)

lemma inv_goroutine:
  "keeps ct Q \<Longrightarrow> keeps cc Q \<Longrightarrow> keeps_fl fl Q \<Longrightarrow>
   goroutine ct cc fl p w = Ok (p', w') \<Longrightarrow> Q w \<Longrightarrow> Q w'"
  by (cases "ending (executor p)")
     (auto simp: goroutine_def bnd_eq_Ok dest: inv_run_calls inv_handlePanic)

lemma inv_Then:
  "keeps ct Q \<Longrightarrow> Then ct h p w = Ok (p', w') \<Longrightarrow> Q w \<Longrightarrow> Q w'"
  by (auto simp: Then_def bnd_eq_Ok split: if_splits dest: keepsD)

lemma inv_Catch:
  "keeps cc Q \<Longrightarrow> Catch cc h p w = Ok (p', w') \<Longrightarrow> Q w \<Longrightarrow> Q w'"
  by (auto simp: Catch_def bnd_eq_Ok split: if_splits dest: keepsD)


lemma release_eq:
  "release n p = (if n \<le> wg p then Ok (p\<lparr> wg := wg p - n \<rparr>) else Crash Negative_WaitGroup)"
proof (induction n arbitrary: p)
  case 0
  show ?case by simp
next
  case (Suc n)
  show ?case
  proof (cases "wg p = 0")
    case True
    then show ?thesis by (simp add: wg_Done_def)
  next
    case False
    then show ?thesis by (auto simp add: wg_Done_def Suc)
  qed
qed

lemma call_catch_eq:
  "call_catch env h e w = Ok (catch_fn env h e, w\<lparr> log := log w @ [Catch_call h e] \<rparr>)"
  by (simp add: call_catch_def)

lemma chain_loop_user:
  "chain_loop env hs e p w =
     (if length hs \<le> wg p
      then Ok (chain_result env hs e, p\<lparr> wg := wg p - length hs \<rparr>,
               w\<lparr> log := log w @ catch_trace env hs e \<rparr>)
      else Crash Negative_WaitGroup)"
proof (induction hs arbitrary: e p w)
  case Nil
  show ?case by (simp add: chain_result_def)
next
  case (Cons h hs)
  show ?case
    by (cases "wg p = 0") (auto simp add: call_catch_eq [of env h e w] wg_Done_def Cons chain_result_def)
qed

lemma keeps_k_then: "keeps k_then (\<lambda>fr. kept p (outer fr) \<and> heap (fworld fr) = hp)"
  by (auto simp: keeps_def k_then_def kept_def)

lemma keeps_k_catch: "keeps (k_catch env) (\<lambda>fr. kept p (outer fr) \<and> heap (fworld fr) = hp)"
  by (auto simp: keeps_def k_catch_def kept_def Let_def release_eq chain_loop_user bnd_eq_Ok
           split: if_splits)

lemma keeps_no_flatten: "keeps_fl no_flatten Q"
  by (auto simp: keeps_fl_def no_flatten_def split: val.splits)

lemma at_moment_kept:
  "at_moment env sc m n fr = Ok (n', fr') \<Longrightarrow> kept p (outer fr) \<and> heap (fworld fr) = hp \<Longrightarrow>
   kept p (outer fr') \<and> heap (fworld fr') = hp"
  unfolding at_moment_def
  by (cases "sc = m") 
     (auto dest: inv_goroutine [OF keeps_k_then keeps_k_catch keeps_no_flatten])

lemma flatten_kept:
  assumes "flatten env sc dc p w = Ok (p', w', b)"
  shows "kept p p' \<and> length (heap w') = length (heap w)"
proof (cases "result p")
  case (VPromise a)
  let ?Q = "\<lambda>fr. kept p (outer fr) \<and> heap (fworld fr) = heap w"
  from assms VPromise obtain n1 fr1 n2 fr2 n3 fr3 n4 fr4 n5 fr5 where
    s1: "at_moment env sc Before_Then (heap w ! a)
           \<lparr> outer = p, isRejected = False, doneCounter = dc, fworld = w \<rparr> = Ok (n1, fr1)" and
    s2: "Then k_then Cont_then n1 fr1 = Ok (n2, fr2)" and
    s3: "at_moment env sc Before_Catch n2 fr2 = Ok (n3, fr3)" and
    s4: "Catch (k_catch env) Cont_catch n3 fr3 = Ok (n4, fr4)" and
    s5: "at_moment env sc During_Await n4 fr4 = Ok (n5, fr5)" and
    s6: "p' = outer fr5" "w' = (fworld fr5)\<lparr> heap := (heap (fworld fr5))[a := n5] \<rparr>"
    by (auto simp: flatten_def bnd_eq_Ok split: if_splits)
  have "?Q \<lparr> outer = p, isRejected = False, doneCounter = dc, fworld = w \<rparr>"
    by (simp add: kept_def)
  with s1 have "?Q fr1" by (rule at_moment_kept)
  with keeps_k_then s2 have "?Q fr2" by (rule inv_Then)
  with s3 have "?Q fr3" by (rule at_moment_kept)
  with keeps_k_catch s4 have "?Q fr4" by (rule inv_Catch)
  with s5 have "?Q fr5" by (rule at_moment_kept)
  with s6 show ?thesis by simp
qed (use assms in \<open>auto simp: flatten_def kept_def\<close>)


lemma catch_loop_user:
  "catch_loop (call_catch env) hs p w =
     (if length hs \<le> wg p
      then Ok (p\<lparr> error := chain_result env hs (error p), wg := wg p - length hs \<rparr>,
               w\<lparr> log := log w @ catch_trace env hs (error p) \<rparr>)
      else Crash Negative_WaitGroup)"
proof (induction hs arbitrary: p w)
  case Nil
  show ?case by (simp add: chain_result_def)
next
  case (Cons h hs)
  show ?case
    by (cases "wg p = 0")
       (auto simp add: call_catch_eq [of env h "error p" w] wg_Done_def Cons chain_result_def)
qed

lemma reject_user:
  "state p = pending \<Longrightarrow> length (thens p) + length (catches p) \<le> wg p \<Longrightarrow>
   u_reject env p e w =
     Ok (p\<lparr> error := chain_result env (catches p) e,
             wg := wg p - (length (thens p) + length (catches p)), state := rejected \<rparr>,
         w\<lparr> log := log w @ catch_trace env (catches p) e \<rparr>)"
  by (simp add: u_reject_def reject_def release_eq catch_loop_user)

lemma reject_user_Ok:
  "state p = pending \<Longrightarrow> u_reject env p e w = Ok (p', w') \<Longrightarrow>
   length (thens p) + length (catches p) \<le> wg p"
  by (auto simp: u_reject_def reject_def release_eq catch_loop_user bnd_eq_Ok split: if_splits)

lemma reject_settled: "state p \<noteq> pending \<Longrightarrow> reject cc p e w = Ok (p, w)"
  by (simp add: reject_def)

lemma resolve_settled: "state p \<noteq> pending \<Longrightarrow> resolve ct fl p v w = Ok (p, w)"
  by (simp add: resolve_def)

lemma run_calls_settled: "state p \<noteq> pending \<Longrightarrow> run_calls ct cc fl as p w = Ok (p, w)"
proof (induction as)
  case Nil
  show ?case by simp
next
  case (Cons a as)
  then show ?case by (cases a) (simp_all add: reject_settled resolve_settled)
qed

lemma wg_Done_kept: "wg_Done p = Ok p' \<Longrightarrow> kept p p'"
  by (auto simp: wg_Done_def kept_def split: if_splits)

lemma kept_trans: "kept p q \<Longrightarrow> kept q r \<Longrightarrow> kept p r"
  by (simp add: kept_def)

lemma then_loop_kept:
  "then_loop (call_then env) (flatten env sc) hs dc p w = Ok (p', w', b) \<Longrightarrow> kept p p'"
proof (induction hs arbitrary: dc p w)
  case Nil
  then show ?case by (simp add: kept_def)
next
  case (Cons h hs)
  from Cons.prems obtain r w1 p2 w2 isRej where
    b: "flatten env sc dc (p\<lparr> result := r \<rparr>) w1 = Ok (p2, w2, isRej)" and
    c: "(if isRej then Ok (p2, w2, True)
         else bnd (wg_Done p2) (\<lambda>p3. then_loop (call_then env) (flatten env sc) hs (dc + 1) p3 w2))
        = Ok (p', w', b)"
    by (auto simp: bnd_eq_Ok)
  from flatten_kept [OF b] have k2: "kept p p2" by (simp add: kept_def)
  show ?case
  proof (cases isRej)
    case True
    with c k2 show ?thesis by simp
  next
    case False
    with c obtain p3 where d: "wg_Done p2 = Ok p3"
      and e: "then_loop (call_then env) (flatten env sc) hs (dc + 1) p3 w2 = Ok (p', w', b)"
      by (auto simp: bnd_eq_Ok)
    from k2 wg_Done_kept [OF d] Cons.IH [OF e] show ?thesis by (blast intro: kept_trans)
  qed
qed

lemma resolve_user_state:
  assumes "state p = pending" and "u_resolve env sc p v w = Ok (p', w')"
  shows "state p' = fulfilled \<and> thens p' = thens p \<and> catches p' = catches p \<and> error p' = error p"
proof -
  from assms obtain p1 w1 b where
    a: "then_loop (call_then env) (flatten env sc) (thens p) 0
          (p\<lparr> state := fulfilled, result := v \<rparr>) w = Ok (p1, w1, b)" and
    b: "p' = p1 \<or> (\<exists>n. p' = p1\<lparr> wg := n \<rparr>)"
    by (auto simp: u_resolve_def resolve_def bnd_eq_Ok release_eq split: if_splits)
  from then_loop_kept [OF a] b show ?thesis by (auto simp: kept_def)
qed

section \<open>Settlement\<close>

text \<open>
  Claim C1. Settlement is monotonic and idempotent. A \<^verbatim>\<open>resolve\<close> or \<^verbatim>\<open>reject\<close> on a
  promise that is no longer pending returns the promise and its surroundings unchanged,
  and so does any sequence of such calls; \<^verbatim>\<open>resolve\<close> on a pending promise leaves it
  fulfilled and \<^verbatim>\<open>reject\<close> leaves it rejected; \<^verbatim>\<open>Then\<close> and \<^verbatim>\<open>Catch\<close> never change the
  state. Hence the state moves only from pending to fulfilled or from pending to
  rejected, once, and the first settling call wins.
\<close>

theorem settlement_first_writer_wins:
  "(state p \<noteq> pending \<longrightarrow>
      u_resolve env sc p v w = Ok (p, w) \<and> u_reject env p e w = Ok (p, w)
      \<and> run_calls (call_then env) (call_catch env) (flatten env sc) as p w = Ok (p, w))
   \<and> (state p = pending \<longrightarrow> u_resolve env sc p v w = Ok (p', w') \<longrightarrow> state p' = fulfilled)
   \<and> (state p = pending \<longrightarrow> u_reject env p e w = Ok (p', w') \<longrightarrow> state p' = rejected)
   \<and> (u_Then env h p w = Ok (p', w') \<longrightarrow> state p' = state p)
   \<and> (u_Catch env h p w = Ok (p', w') \<longrightarrow> state p' = state p)"
proof (intro conjI impI)
  assume "state p \<noteq> pending"
  then show "u_resolve env sc p v w = Ok (p, w)" "u_reject env p e w = Ok (p, w)"
    "run_calls (call_then env) (call_catch env) (flatten env sc) as p w = Ok (p, w)"
    by (simp_all add: u_resolve_def u_reject_def resolve_settled reject_settled run_calls_settled)
next
  assume "state p = pending" "u_resolve env sc p v w = Ok (p', w')"
  then show "state p' = fulfilled" by (simp add: resolve_user_state)
next
  assume a: "state p = pending" "u_reject env p e w = Ok (p', w')"
  from reject_user_Ok [OF a] reject_user [OF a(1), of env e w] a(2)
  show "state p' = rejected" by auto
next
  assume "u_Then env h p w = Ok (p', w')"
  then show "state p' = state p"
    by (auto simp: u_Then_def Then_def wg_Add_def bnd_eq_Ok split: if_splits)
next
  assume "u_Catch env h p w = Ok (p', w')"
  then show "state p' = state p"
    by (auto simp: u_Catch_def Catch_def wg_Add_def bnd_eq_Ok split: if_splits)
qed

section \<open>Then and Catch\<close>

text \<open>
  Claim C2. \<^verbatim>\<open>Then\<close> and \<^verbatim>\<open>Catch\<close> dispatch on the state and return the same promise.
  On a pending promise the handler is appended to its slice and the counter grows by
  one. \<^verbatim>\<open>Then\<close> on a fulfilled promise calls the handler at once on the current result
  and stores what it returns as the result; \<^verbatim>\<open>Catch\<close> on a rejected promise does the
  same with the error. \<^verbatim>\<open>Then\<close> on a rejected promise and \<^verbatim>\<open>Catch\<close> on a fulfilled one
  change nothing and call nothing (the log stays as it was).
\<close>

theorem then_catch_dispatch_on_state:
  "(state p = pending \<longrightarrow>
      u_Then env h p w = Ok (p\<lparr> thens := thens p @ [h], wg := wg p + 1 \<rparr>, w)
      \<and> u_Catch env h p w = Ok (p\<lparr> catches := catches p @ [h], wg := wg p + 1 \<rparr>, w))
   \<and> (state p = fulfilled \<longrightarrow>
      u_Then env h p w =
        Ok (p\<lparr> result := (case then_fn env h (result p) of
                             Ret r \<Rightarrow> r | Ret_New ex \<Rightarrow> VPromise (length (heap w))) \<rparr>,
            w\<lparr> heap := (case then_fn env h (result p) of
                          Ret r \<Rightarrow> heap w | Ret_New ex \<Rightarrow> heap w @ [New ex]),
               log := log w @ [Then_call h (result p)] \<rparr>)
      \<and> u_Catch env h p w = Ok (p, w))
   \<and> (state p = rejected \<longrightarrow>
      u_Catch env h p w =
        Ok (p\<lparr> error := catch_fn env h (error p) \<rparr>, w\<lparr> log := log w @ [Catch_call h (error p)] \<rparr>)
      \<and> u_Then env h p w = Ok (p, w))"
  by (cases "then_fn env h (result p)")
     (auto simp: u_Then_def u_Catch_def Then_def Catch_def wg_Add_def call_then_def
                 call_catch_eq [of env h "error p" w])

theorem settlement_first_writer_wins_witness:
  "state (settled_with (VInt 1)) \<noteq> pending
   \<and> u_resolve demo_env During_Await (settled_with (VInt 1)) (VInt 7) empty_world
       = Ok (settled_with (VInt 1), empty_world)
   \<and> u_reject demo_env (settled_with (VInt 1)) (Some (errors_New ''late'')) empty_world
       = Ok (settled_with (VInt 1), empty_world)
   \<and> state (registered (Exec [] Returns) [0, 1] [1]) = pending
   \<and> u_resolve demo_env During_Await (registered (Exec [] Returns) [0, 1] [1]) (VInt 2) empty_world
       = Ok ((registered (Exec [] Returns) [0, 1] [1])\<lparr> state := fulfilled, result := VNil, wg := 0 \<rparr>,
             empty_world\<lparr> log := [Then_call 0 (VInt 2), Then_call 1 (VInt 3)] \<rparr>)
   \<and> state ((registered (Exec [] Returns) [0, 1] [1])\<lparr> state := fulfilled, result := VNil, wg := 0 \<rparr>)
       = fulfilled"
  using settlement_first_writer_wins [of "settled_with (VInt 1)" demo_env During_Await "VInt 7"
          empty_world "Some (errors_New ''late'')" "[]"]
        settlement_first_writer_wins [of "registered (Exec [] Returns) [0, 1] [1]" demo_env
          During_Await "VInt 2" empty_world None "[]"
          "(registered (Exec [] Returns) [0, 1] [1])\<lparr> state := fulfilled, result := VNil, wg := 0 \<rparr>"
          "empty_world\<lparr> log := [Then_call 0 (VInt 2), Then_call 1 (VInt 3)] \<rparr>"]
  by (simp add: settled_with_def registered_def empty_world_def demo_env_def u_resolve_def
        resolve_def call_then_def flatten_def wg_Done_def)


theorem then_catch_dispatch_on_state_witness:
  "state (registered (Exec [] Returns) [0] []) = pending
   \<and> u_Then demo_env 1 (registered (Exec [] Returns) [0] []) empty_world
       = Ok ((registered (Exec [] Returns) [0] [])\<lparr> thens := [0, 1], wg := 2 \<rparr>, empty_world)
   \<and> state (settled_with (VInt 2)) = fulfilled
   \<and> u_Then demo_env 0 (settled_with (VInt 2)) empty_world
       = Ok ((settled_with (VInt 2))\<lparr> result := VInt 3 \<rparr>,
             empty_world\<lparr> log := [Then_call 0 (VInt 2)] \<rparr>)
   \<and> u_Catch demo_env 0 (settled_with (VInt 2)) empty_world = Ok (settled_with (VInt 2), empty_world)
   \<and> state (failed_with (Some (errors_New ''very serious error''))) = rejected
   \<and> u_Catch demo_env 0 (failed_with (Some (errors_New ''very serious error''))) empty_world
       = Ok ((failed_with (Some (errors_New ''very serious error'')))
               \<lparr> error := Some (errors_New ''dealing with error at this stage'') \<rparr>,
             empty_world\<lparr> log := [Catch_call 0 (Some (errors_New ''very serious error''))] \<rparr>)
   \<and> u_Then demo_env 0 (failed_with (Some (errors_New ''very serious error''))) empty_world
       = Ok (failed_with (Some (errors_New ''very serious error'')), empty_world)"
  using then_catch_dispatch_on_state [of "registered (Exec [] Returns) [0] []" demo_env 1 empty_world]
        then_catch_dispatch_on_state [of "settled_with (VInt 2)" demo_env 0 empty_world]
        then_catch_dispatch_on_state [of "failed_with (Some (errors_New ''very serious error''))"
          demo_env 0 empty_world]
  by (simp add: settled_with_def failed_with_def registered_def empty_world_def demo_env_def)

section \<open>Rejection\<close>

lemma catch_trace_nth:
  "catch_trace env hs e =
     map (\<lambda>i. Catch_call (hs ! i) (chain_result env (take i hs) e)) [0..<length hs]"
proof (induction hs arbitrary: e)
  case Nil
  show ?case by simp
next
  case (Cons h hs)
  have "[0..<length (h # hs)] = 0 # map Suc [0..<length hs]"
    by (simp add: upt_conv_Cons map_Suc_upt del: upt_Suc)
  then show ?case
    by (simp add: Cons chain_result_def comp_def del: upt_Suc)
qed

lemma then_names_catch_trace: "then_names (catch_trace env hs e) = []"
  by (induction hs arbitrary: e) auto

lemma catch_names_catch_trace: "catch_names (catch_trace env hs e) = hs"
  by (induction hs arbitrary: e) auto

text \<open>
  Claim C3. On a pending promise with \<open>k\<close> rejection handlers registered (so that the
  counter covers every registered handler), \<^verbatim>\<open>reject(e)\<close> returns, and what it adds to
  the log is exactly one call per rejection handler, in registration order, the
  \<open>i\<close>-th on the error obtained by running the first \<open>i\<close> handlers on \<open>e\<close>; the
  stored error is the left fold of the whole chain over \<open>e\<close>. No fulfillment handler
  is called: the added entries are all calls of rejection handlers.
\<close>

theorem reject_runs_every_catch_handler:
  assumes "state p = pending" and "length (thens p) + length (catches p) \<le> wg p"
  shows "\<exists>p' w'. u_reject env p e w = Ok (p', w')
           \<and> log w' = log w @ map (\<lambda>i. Catch_call (catches p ! i)
                                          (chain_result env (take i (catches p)) e))
                                  [0..<length (catches p)]
           \<and> error p' = chain_result env (catches p) e
           \<and> state p' = rejected"
  using assms by (simp add: reject_user catch_trace_nth)

theorem reject_runs_every_catch_handler_witness:
  "state (registered (Exec [] Returns) [1] [0, 2, 1]) = pending
   \<and> length (thens (registered (Exec [] Returns) [1] [0, 2, 1]))
       + length (catches (registered (Exec [] Returns) [1] [0, 2, 1]))
       \<le> wg (registered (Exec [] Returns) [1] [0, 2, 1])
   \<and> (\<exists>p' w'. u_reject demo_env (registered (Exec [] Returns) [1] [0, 2, 1])
                 (Some (errors_New ''very serious error'')) empty_world = Ok (p', w')
         \<and> log w' = [Catch_call 0 (Some (errors_New ''very serious error'')),
                     Catch_call 2 (Some (errors_New ''dealing with error at this stage'')),
                     Catch_call 1 (Some (errors_New ''dealing with error at this stage''))]
         \<and> error p' = None \<and> state p' = rejected)"
proof -
  have h1: "state (registered (Exec [] Returns) [1] [0, 2, 1]) = pending"
    by (simp add: registered_def)
  have h2: "length (thens (registered (Exec [] Returns) [1] [0, 2, 1]))
       + length (catches (registered (Exec [] Returns) [1] [0, 2, 1]))
       \<le> wg (registered (Exec [] Returns) [1] [0, 2, 1])"
    by (simp add: registered_def)
  from reject_runs_every_catch_handler [OF h1 h2, of demo_env
         "Some (errors_New ''very serious error'')" empty_world]
  show ?thesis using h1 h2
    by (simp add: registered_def chain_result_def demo_env_def empty_world_def)
qed

section \<open>Panics of the executor\<close>

lemma reject_user_cases:
  "u_reject env p e w = Ok (p, w) \<or> u_reject env p e w = Crash Negative_WaitGroup
   \<or> (\<exists>p' w'. u_reject env p e w = Ok (p', w') \<and> state p' = rejected)"
  by (auto simp: u_reject_def reject_def release_eq catch_loop_user)

lemma goroutine_panic_only:
  "executor p = Exec [] (Panics r) \<Longrightarrow> goroutine ct cc fl p w = handlePanic cc p r w"
  by (simp add: goroutine_def)

text \<open>
  Claim C7. An executor that makes no call and panics with a string \<open>s\<close> (the claim
  has \<open>s\<close> = "boom") has the same effect as the call \<^verbatim>\<open>reject(errors.New(s))\<close>: the
  goroutine's outcome equals that of \<^verbatim>\<open>reject\<close> on that error, whose text is \<open>s\<close>;
  on a pending promise whose counter covers its handlers the promise ends rejected and
  the rejection handlers have run on that error, in order, as in an explicit
  \<^verbatim>\<open>reject\<close>.
\<close>

theorem panic_becomes_rejection:
  assumes "executor p = Exec [] (Panics (VStr s))"
  shows "u_goroutine env sc p w = u_reject env p (Some (errors_New s)) w
         \<and> Error (errors_New s) = s
         \<and> (state p = pending \<longrightarrow> length (thens p) + length (catches p) \<le> wg p \<longrightarrow>
              (\<exists>p' w'. u_goroutine env sc p w = Ok (p', w') \<and> state p' = rejected
                 \<and> error p' = chain_result env (catches p) (Some (errors_New s))
                 \<and> log w' = log w @ catch_trace env (catches p) (Some (errors_New s))))"
  using assms
  by (simp add: u_goroutine_def goroutine_panic_only handlePanic_def reject_user [unfolded u_reject_def]
        u_reject_def)

theorem panic_becomes_rejection_witness:
  "executor (registered (Exec [] (Panics (VStr ''boom''))) [1] [2]) = Exec [] (Panics (VStr ''boom''))
   \<and> u_goroutine demo_env During_Await (registered (Exec [] (Panics (VStr ''boom''))) [1] [2]) empty_world
       = u_reject demo_env (registered (Exec [] (Panics (VStr ''boom''))) [1] [2])
           (Some (errors_New ''boom'')) empty_world
   \<and> (\<exists>p' w'. u_goroutine demo_env During_Await
                 (registered (Exec [] (Panics (VStr ''boom''))) [1] [2]) empty_world = Ok (p', w')
         \<and> state p' = rejected \<and> error p' = Some (errors_New ''boom'')
         \<and> log w' = [Catch_call 2 (Some (errors_New ''boom''))])"
proof -
  let ?p = "registered (Exec [] (Panics (VStr ''boom''))) [1] [2]"
  have h: "executor ?p = Exec [] (Panics (VStr ''boom''))"
    and h1: "state ?p = pending"
    and h2: "length (thens ?p) + length (catches ?p) \<le> wg ?p"
    by (simp_all add: registered_def)
  note t = panic_becomes_rejection [OF h, of demo_env During_Await empty_world]
  from t have a: "u_goroutine demo_env During_Await ?p empty_world
       = u_reject demo_env ?p (Some (errors_New ''boom'')) empty_world"
    by blast
  from t h1 h2 obtain p' w' where
    b: "u_goroutine demo_env During_Await ?p empty_world = Ok (p', w')" "state p' = rejected"
       "error p' = chain_result demo_env (catches ?p) (Some (errors_New ''boom''))"
       "log w' = log empty_world @ catch_trace demo_env (catches ?p) (Some (errors_New ''boom''))"
    by blast
  have "error p' = Some (errors_New ''boom'')"
    using b(3) by (simp add: registered_def chain_result_def demo_env_def)
  moreover have "log w' = [Catch_call 2 (Some (errors_New ''boom''))]"
    using b(4) by (simp add: registered_def empty_world_def)
  ultimately show ?thesis using h a b(1,2) by blast
qed

text \<open>
  Against claim C8 as it is worded: \<^verbatim>\<open>nil\<close> is not a string, yet an executor whose
  panic makes \<^verbatim>\<open>recover()\<close> yield \<^verbatim>\<open>nil\<close> does not make the conversion fault:
  \<^verbatim>\<open>handlePanic\<close> skips the conversion under its test \<^verbatim>\<open>r != nil\<close>, the goroutine
  returns, and the promise stays pending.
\<close>

theorem nil_panic_is_not_converted:
  "u_goroutine demo_env During_Await (registered (Exec [] (Panics VNil)) [1] [2]) empty_world
     = Ok (registered (Exec [] (Panics VNil)) [1] [2], empty_world)
   \<and> state (registered (Exec [] (Panics VNil)) [1] [2]) = pending"
  by (simp add: u_goroutine_def goroutine_def handlePanic_def registered_def)

text \<open>
  Claim C8, amended. The conversion of a panic into a rejection is partial. When the
  recovered value \<open>r\<close> is neither \<^verbatim>\<open>nil\<close> nor a string, \<^verbatim>\<open>handlePanic\<close> itself panics
  in \<^verbatim>\<open>r.(string)\<close>, whatever the state of the promise, and rejects nothing; an
  executor that only panics with \<open>r\<close> makes the goroutine end in that fault, and no
  executor ending in such a panic lets the goroutine return. When the recovered value
  is \<^verbatim>\<open>nil\<close>, \<^verbatim>\<open>handlePanic\<close> does nothing: no fault and no rejection. When the
  recovered value is a string, \<^verbatim>\<open>handlePanic\<close> is the call of \<^verbatim>\<open>reject\<close> and the
  failure of the type assertion does not occur.
\<close>

theorem panic_conversion_needs_a_string:
  "(r \<noteq> VNil \<longrightarrow> (\<forall>s. r \<noteq> VStr s) \<longrightarrow>
      u_handlePanic env p r w = Crash Type_assertion
      \<and> (executor p = Exec [] (Panics r) \<longrightarrow> u_goroutine env sc p w = Crash Type_assertion)
      \<and> (ending (executor p) = Panics r \<longrightarrow> (\<forall>p' w'. u_goroutine env sc p w \<noteq> Ok (p', w'))))
   \<and> u_handlePanic env p VNil w = Ok (p, w)
   \<and> (executor p = Exec [] (Panics VNil) \<longrightarrow> u_goroutine env sc p w = Ok (p, w))
   \<and> u_handlePanic env p (VStr s) w = u_reject env p (Some (errors_New s)) w
   \<and> u_handlePanic env p (VStr s) w \<noteq> Crash Type_assertion"
proof -
  have a: "u_handlePanic env p r w = Crash Type_assertion" if "r \<noteq> VNil" "\<forall>s. r \<noteq> VStr s"
    using that by (cases r) (simp_all add: u_handlePanic_def handlePanic_def)
  have b: "u_goroutine env sc p w \<noteq> Ok (p', w')"
    if "r \<noteq> VNil" "\<forall>s. r \<noteq> VStr s" "ending (executor p) = Panics r" for p' w'
    using that a [unfolded u_handlePanic_def]
    by (auto simp: u_goroutine_def goroutine_def bnd_eq_Ok handlePanic_def split: val.splits)
  have c: "u_handlePanic env p (VStr s) w = u_reject env p (Some (errors_New s)) w"
    by (simp add: u_handlePanic_def handlePanic_def u_reject_def)
  have d: "u_handlePanic env p (VStr s) w \<noteq> Crash Type_assertion"
    using reject_user_cases [of env p "Some (errors_New s)" w] c by auto
  have e: "u_handlePanic env p VNil w = Ok (p, w)"
    by (simp add: u_handlePanic_def handlePanic_def)
  have f: "u_goroutine env sc p w = Ok (p, w)" if "executor p = Exec [] (Panics VNil)"
    using that by (simp add: u_goroutine_def goroutine_def handlePanic_def)
  show ?thesis
    using a b c d e f by (auto simp: u_goroutine_def goroutine_panic_only u_handlePanic_def)
qed

theorem panic_conversion_needs_a_string_witness:
  "VInt 7 \<noteq> VNil \<and> (\<forall>s. VInt 7 \<noteq> VStr s)
   \<and> u_handlePanic demo_env (registered (Exec [] (Panics (VInt 7))) [1] [2]) (VInt 7) empty_world
       = Crash Type_assertion
   \<and> u_goroutine demo_env During_Await (registered (Exec [] (Panics (VInt 7))) [1] [2]) empty_world
       = Crash Type_assertion
   \<and> u_handlePanic demo_env (registered (Exec [] (Panics (VInt 7))) [1] [2]) VNil empty_world
       = Ok (registered (Exec [] (Panics (VInt 7))) [1] [2], empty_world)
   \<and> u_handlePanic demo_env (registered (Exec [] (Panics (VInt 7))) [1] [2]) (VStr ''boom'') empty_world
       \<noteq> Crash Type_assertion"
proof -
  let ?p = "registered (Exec [] (Panics (VInt 7))) [1] [2]"
  have h: "executor ?p = Exec [] (Panics (VInt 7))"
    by (simp add: registered_def)
  have n: "VInt 7 \<noteq> VNil" "\<forall>s. VInt 7 \<noteq> VStr s"
    by simp_all
  from panic_conversion_needs_a_string [of "VInt 7" demo_env ?p empty_world During_Await "''boom''"]
    h n
  show ?thesis by blast
qed

section \<open>Await\<close>

lemma goroutine_idle:
  "executor p = Exec [] Returns \<Longrightarrow> goroutine ct cc fl p w = Ok (p, w)"
  by (simp add: goroutine_def handlePanic_def)

lemma steps_idle:
  "executor p = Exec [] Returns \<Longrightarrow> state p = pending \<Longrightarrow>
   steps env sc ss p w =
     Ok (p\<lparr> thens := thens p @ registered_thens ss,
             catches := catches p @ registered_catches ss,
             wg := wg p + length (registered_thens ss) + length (registered_catches ss) \<rparr>, w)"
proof (induction ss arbitrary: p)
  case Nil
  show ?case by simp
next
  case (Cons s ss)
  show ?case
  proof (cases s)
    case (Do_Then h)
    let ?q = "p\<lparr> thens := thens p @ [h], wg := wg p + 1 \<rparr>"
    have "do_step env sc s p w = Ok (?q, w)"
      using Cons.prems Do_Then by (simp add: u_Then_def Then_def wg_Add_def)
    moreover have "executor ?q = Exec [] Returns" "state ?q = pending"
      using Cons.prems by simp_all
    ultimately show ?thesis using Do_Then by (simp add: Cons.IH)
  next
    case (Do_Catch h)
    let ?q = "p\<lparr> catches := catches p @ [h], wg := wg p + 1 \<rparr>"
    have "do_step env sc s p w = Ok (?q, w)"
      using Cons.prems Do_Catch by (simp add: u_Catch_def Catch_def wg_Add_def)
    moreover have "executor ?q = Exec [] Returns" "state ?q = pending"
      using Cons.prems by simp_all
    ultimately show ?thesis using Do_Catch by (simp add: Cons.IH)
  next
    case Run_goroutine
    then show ?thesis using Cons.prems by (simp add: u_goroutine_def goroutine_idle Cons.IH)
  qed
qed

text \<open>
  Against claim C9 as it is worded: a promise whose executor returns without calling
  \<^verbatim>\<open>resolve\<close> or \<^verbatim>\<open>reject\<close> and without a panic, and on which no handler was
  registered, is pending for good, and \<^verbatim>\<open>Await\<close> on it returns at once.
\<close>

theorem await_returns_when_nothing_registered:
  "steps demo_env During_Await [Run_goroutine] (New (Exec [] Returns)) empty_world
     = Ok (New (Exec [] Returns), empty_world)
   \<and> state (New (Exec [] Returns) :: upromise) = pending
   \<and> Await (New (Exec [] Returns) :: upromise) = Ok ()"
  by (simp add: New_def u_goroutine_def goroutine_def handlePanic_def Await_def)

text \<open>
  Claim C9, amended. \<^verbatim>\<open>Await\<close> waits for the counter to reach zero and has no timeout.
  For a promise whose executor never calls \<^verbatim>\<open>resolve\<close> or \<^verbatim>\<open>reject\<close> and never
  panics, after any sequence of registrations and of runs of its goroutine the promise
  is still pending and the counter is the number of handlers registered; so \<^verbatim>\<open>Await\<close>
  blocks for ever as soon as one handler is registered, and returns at once when none
  is.
\<close>

theorem await_blocks_iff_handler_registered:
  "\<exists>p'. steps env sc ss (New (Exec [] Returns)) w = Ok (p', w)
        \<and> state p' = pending
        \<and> thens p' = registered_thens ss \<and> catches p' = registered_catches ss
        \<and> wg p' = length (registered_thens ss) + length (registered_catches ss)
        \<and> Await p' = (if registered_thens ss = [] \<and> registered_catches ss = []
                       then Ok () else Blocked)"
proof -
  have "executor (New (Exec [] Returns) :: upromise) = Exec [] Returns"
    "state (New (Exec [] Returns) :: upromise) = pending"
    by (simp_all add: New_def)
  from steps_idle [OF this, of env sc ss w] show ?thesis
    by (simp add: New_def Await_def)
qed

theorem await_blocks_iff_handler_registered_witness:
  "\<exists>p'. steps demo_env During_Await [Do_Then 1, Run_goroutine, Do_Catch 2]
          (New (Exec [] Returns)) empty_world = Ok (p', empty_world)
        \<and> state p' = pending \<and> wg p' = 2 \<and> Await p' = Blocked"
  using await_blocks_iff_handler_registered
          [of demo_env During_Await "[Do_Then 1, Run_goroutine, Do_Catch 2]" empty_world]
  by auto

section \<open>Handlers registered after settlement\<close>

text \<open>
  Claim C10. \<^verbatim>\<open>Then\<close> on a fulfilled promise does not flatten. When the handler
  returns a promise (one it has just made, or a pointer it already had), that pointer
  becomes the result; the promise pointed to is left as it is in the heap, with no
  continuation attached; and the handler of a following \<^verbatim>\<open>Then\<close> is called on the
  pointer, not on a value the pointed promise settles with.
\<close>

theorem then_after_settlement_keeps_the_promise:
  assumes "state p = fulfilled"
  shows "(then_fn env h (result p) = Ret_New ex \<longrightarrow>
            (\<exists>p1 w1 p2 w2.
               u_Then env h p w = Ok (p1, w1)
               \<and> result p1 = VPromise (length (heap w))
               \<and> heap w1 = heap w @ [New ex]
               \<and> u_Then env h2 p1 w1 = Ok (p2, w2)
               \<and> log w2 = log w @ [Then_call h (result p), Then_call h2 (VPromise (length (heap w)))]
               \<and> heap w2 ! length (heap w) = New ex))
         \<and> (then_fn env h (result p) = Ret (VPromise a) \<longrightarrow>
            (\<exists>p1 w1 p2 w2.
               u_Then env h p w = Ok (p1, w1)
               \<and> result p1 = VPromise a
               \<and> heap w1 = heap w
               \<and> u_Then env h2 p1 w1 = Ok (p2, w2)
               \<and> log w2 = log w @ [Then_call h (result p), Then_call h2 (VPromise a)]
               \<and> take (length (heap w)) (heap w2) = heap w))"
  using assms
  by (cases "then_fn env h2 (VPromise (length (heap w)))"; cases "then_fn env h2 (VPromise a)")
     (auto simp: u_Then_def Then_def call_then_def nth_append)

theorem then_after_settlement_keeps_the_promise_witness:
  "state (settled_with (VInt 1)) = fulfilled
   \<and> then_fn demo_env 2 (result (settled_with (VInt 1))) = Ret_New (Exec [Call_resolve (VInt 228)] Returns)
   \<and> (\<exists>p1 w1 p2 w2.
         u_Then demo_env 2 (settled_with (VInt 1)) empty_world = Ok (p1, w1)
         \<and> result p1 = VPromise 0
         \<and> heap w1 = [New (Exec [Call_resolve (VInt 228)] Returns)]
         \<and> u_Then demo_env 3 p1 w1 = Ok (p2, w2)
         \<and> log w2 = [Then_call 2 (VInt 1), Then_call 3 (VPromise 0)]
         \<and> result p2 = VPromise 0)"
proof -
  have h: "state (settled_with (VInt 1)) = fulfilled"
    and r: "then_fn demo_env 2 (result (settled_with (VInt 1)))
              = Ret_New (Exec [Call_resolve (VInt 228)] Returns)"
    by (simp_all add: settled_with_def demo_env_def)
  from then_after_settlement_keeps_the_promise [OF h, of demo_env 2
         "Exec [Call_resolve (VInt 228)] Returns" empty_world 3] r
  obtain p1 w1 p2 w2 where
    a: "u_Then demo_env 2 (settled_with (VInt 1)) empty_world = Ok (p1, w1)"
       "result p1 = VPromise (length (heap empty_world))"
       "heap w1 = heap empty_world @ [New (Exec [Call_resolve (VInt 228)] Returns)]"
       "u_Then demo_env 3 p1 w1 = Ok (p2, w2)"
       "log w2 = log empty_world @ [Then_call 2 (result (settled_with (VInt 1))),
                                    Then_call 3 (VPromise (length (heap empty_world)))]"
    by blast
  have "result p2 = VPromise 0"
    using a(1,4) by (auto simp: u_Then_def Then_def call_then_def settled_with_def demo_env_def
                       empty_world_def)
  moreover have "result p1 = VPromise 0"
    "heap w1 = [New (Exec [Call_resolve (VInt 228)] Returns)]"
    "log w2 = [Then_call 2 (VInt 1), Then_call 3 (VPromise 0)]"
    using a(2,3,5) by (simp_all add: empty_world_def settled_with_def)
  ultimately show ?thesis using a(1,4) h r by blast
qed

section \<open>Flattening\<close>

lemmas nested_defs =
  at_moment_def goroutine_def Then_def Catch_def resolve_def reject_def handlePanic_def
  k_then_def k_catch_def no_flatten_def Await_def wg_Add_def wg_Done_def release_eq
  chain_loop_user Let_def

lemma flatten_resolving:
  assumes "result p = VPromise a" and "a < length (heap w)"
    and "heap w ! a = New (Exec [Call_resolve v] Returns)"
  shows "flatten env sc dc p w =
           Ok (p\<lparr> result := v \<rparr>, w\<lparr> heap := (heap w)[a := after_resolve sc v] \<rparr>, False)"
  using assms
  by (cases sc) (simp_all add: flatten_def New_def after_resolve_def nested_defs)

lemma flatten_rejecting:
  assumes "result p = VPromise a" and "a < length (heap w)"
    and "heap w ! a = New (Exec [Call_reject e] Returns)"
    and "length (thens p) - dc + length (catches p) \<le> wg p"
  shows "flatten env sc dc p w =
           Ok (p\<lparr> wg := wg p - (length (thens p) - dc + length (catches p)) \<rparr>,
               w\<lparr> heap := (heap w)[a := after_reject env sc (catches p) e],
                  log := log w @ catch_trace env (catches p) e \<rparr>, True)"
  using assms
  by (cases sc) (simp_all add: flatten_def New_def after_reject_def nested_defs)

lemma flatten_plain:
  "(\<forall>a. result p \<noteq> VPromise a) \<Longrightarrow> flatten env sc dc p w = Ok (p, w, False)"
  by (cases "result p") (simp_all add: flatten_def)


lemma then_loop_append_at:
  "n = dc + length xs \<Longrightarrow>
   then_loop ct fl (xs @ ys) dc p w =
     bnd (then_loop ct fl xs dc p w) (\<lambda>(p1, w1, b).
       if b then Ok (p1, w1, True) else then_loop ct fl ys n p1 w1)"
proof (induction xs arbitrary: dc p w)
  case Nil
  then show ?case by simp
next
  case (Cons x xs)
  then have n: "n = Suc dc + length xs" by simp
  note ih = Cons.IH [OF n]
  show ?case
  proof (cases "ct x (result p) w")
    case (Ok a)
    obtain r w1 where a: "a = (r, w1)" by (cases a)
    show ?thesis
    proof (cases "fl dc (p\<lparr> result := r \<rparr>) w1")
      case fo: (Ok c)
      obtain p2 w2 isRej where c: "c = (p2, w2, isRej)" by (cases c)
      show ?thesis
      proof (cases isRej)
        case True
        with Ok a fo c show ?thesis by simp
      next
        case False
        show ?thesis
        proof (cases "wg_Done p2")
          case wo: (Ok p3)
          with Ok a fo c False show ?thesis by (simp add: ih)
        qed (use Ok a fo c False in simp_all)
      qed
    qed (use Ok a in simp_all)
  qed simp_all
qed

lemma then_loop_append:
  "then_loop ct fl (xs @ ys) dc p w =
     bnd (then_loop ct fl xs dc p w) (\<lambda>(p1, w1, b).
       if b then Ok (p1, w1, True) else then_loop ct fl ys (dc + length xs) p1 w1)"
  by (rule then_loop_append_at) simp

lemma then_loop_resolving_step:
  assumes "0 < wg q"
    and "then_fn env h1 (result q) = Ret_New (Exec [Call_resolve v'] Returns)"
  shows "then_loop (call_then env) (flatten env sc) (h1 # hs) d q u =
           then_loop (call_then env) (flatten env sc) hs (d + 1)
             (q\<lparr> result := v', wg := wg q - 1 \<rparr>)
             (u\<lparr> heap := heap u @ [after_resolve sc v'],
                 log := log u @ [Then_call h1 (result q)] \<rparr>)"
proof -
  let ?u1 = "u\<lparr> heap := heap u @ [New (Exec [Call_resolve v'] Returns)],
                 log := log u @ [Then_call h1 (result q)] \<rparr>"
  let ?q1 = "q\<lparr> result := VPromise (length (heap u)) \<rparr>"
  have c1: "call_then env h1 (result q) u = Ok (VPromise (length (heap u)), ?u1)"
    using assms(2) by (simp add: call_then_def)
  have f1: "flatten env sc d ?q1 ?u1 =
              Ok (?q1\<lparr> result := v' \<rparr>,
                  ?u1\<lparr> heap := (heap ?u1)[length (heap u) := after_resolve sc v'] \<rparr>, False)"
    by (rule flatten_resolving) (simp_all add: nth_append)
  have weq: "?u1\<lparr> heap := (heap ?u1)[length (heap u) := after_resolve sc v'] \<rparr>
               = u\<lparr> heap := heap u @ [after_resolve sc v'],
                     log := log u @ [Then_call h1 (result q)] \<rparr>"
    by simp
  have "then_loop (call_then env) (flatten env sc) (h1 # hs) d q u =
          then_loop (call_then env) (flatten env sc) hs (d + 1)
            (?q1\<lparr> result := v', wg := wg q - 1 \<rparr>)
            (?u1\<lparr> heap := (heap ?u1)[length (heap u) := after_resolve sc v'] \<rparr>)"
    using assms(1) c1 f1 by (simp add: wg_Done_def)
  also have "?q1\<lparr> result := v', wg := wg q - 1 \<rparr> = q\<lparr> result := v', wg := wg q - 1 \<rparr>"
    by simp
  finally show ?thesis unfolding weq .
qed

lemma then_loop_plain_last:
  assumes "0 < wg q" and "then_fn env h2 (result q) = Ret y" and "\<forall>a. y \<noteq> VPromise a"
  shows "then_loop (call_then env) (flatten env sc) [h2] d q u =
           Ok (q\<lparr> result := y, wg := wg q - 1 \<rparr>,
               u\<lparr> log := log u @ [Then_call h2 (result q)] \<rparr>, False)"
proof -
  have c2: "call_then env h2 (result q) u = Ok (y, u\<lparr> log := log u @ [Then_call h2 (result q)] \<rparr>)"
    using assms(2) by (simp add: call_then_def)
  have f2: "flatten env sc d (q\<lparr> result := y \<rparr>) (u\<lparr> log := log u @ [Then_call h2 (result q)] \<rparr>) =
              Ok (q\<lparr> result := y \<rparr>, u\<lparr> log := log u @ [Then_call h2 (result q)] \<rparr>, False)"
    by (rule flatten_plain) (use assms(3) in simp)
  show ?thesis using assms(1) c2 f2 by (simp add: wg_Done_def)
qed

lemma demo_first_handler:
  "then_loop (call_then demo_env) (flatten demo_env Before_Catch) [0] 0
     ((registered (Exec [Call_resolve (VInt 1)] Returns) [0, 2, 3] [])
        \<lparr> state := fulfilled, result := VInt 1 \<rparr>) empty_world
   = Ok ((registered (Exec [Call_resolve (VInt 1)] Returns) [0, 2, 3] [])
            \<lparr> state := fulfilled, result := VInt 2, wg := 2 \<rparr>,
         empty_world\<lparr> log := [Then_call 0 (VInt 1)] \<rparr>, False)"
  by (simp add: registered_def empty_world_def demo_env_def call_then_def flatten_def wg_Done_def)

text \<open>
  Claim C5. Flattening on the fulfillment path, at any position of the chain. Let
  \<^verbatim>\<open>resolve(v)\<close> on a pending promise have come through the fulfillment handlers
  \<open>pre\<close> without leaving the loop, and let the next handler \<open>h1\<close> return a new promise
  whose executor calls \<^verbatim>\<open>resolve(v')\<close>. Then, whenever that executor gets to run, the
  returned promise is not kept as the result: the following handler \<open>h2\<close> is called on
  \<open>v'\<close> (the log has the call of \<open>h1\<close> followed by the call of \<open>h2\<close> on \<open>v'\<close>, not
  on a promise), \<^verbatim>\<open>resolve\<close> returns, and the result of the outer promise is what \<open>h2\<close>
  returned. With no earlier handler, \<open>v = 1\<close> and \<open>v' = 228\<close> this is the scenario of the
  claim. The second part is the rule for one pass of the loop, for every value of
  \<^verbatim>\<open>doneCounter\<close> and every list of remaining handlers: the loop goes on with \<open>v'\<close> as
  the result.
\<close>

theorem flattening_passes_the_fulfilled_value:
  assumes "state p = pending" and "thens p = pre @ [h1, h2]"
    and "then_loop (call_then env) (flatten env sc) pre 0
           (p\<lparr> state := fulfilled, result := v \<rparr>) w = Ok (p1, w1, False)"
    and "then_fn env h1 (result p1) = Ret_New (Exec [Call_resolve v'] Returns)"
    and "then_fn env h2 v' = Ret y" and "\<forall>a. y \<noteq> VPromise a"
    and "2 + length (catches p) \<le> wg p1"
  shows "(\<exists>p' w'. u_resolve env sc p v w = Ok (p', w')
            \<and> log w' = log w1 @ [Then_call h1 (result p1), Then_call h2 v']
            \<and> result p' = y \<and> state p' = fulfilled
            \<and> heap w' = heap w1 @ [after_resolve sc v']
            \<and> wg p' = wg p1 - (2 + length (catches p)))
         \<and> (0 < wg q \<longrightarrow> then_fn env g (result q) = Ret_New (Exec [Call_resolve v'] Returns) \<longrightarrow>
              then_loop (call_then env) (flatten env sc) (g # hs) d q u =
                then_loop (call_then env) (flatten env sc) hs (d + 1)
                  (q\<lparr> result := v', wg := wg q - 1 \<rparr>)
                  (u\<lparr> heap := heap u @ [after_resolve sc v'],
                      log := log u @ [Then_call g (result q)] \<rparr>))"
proof (intro conjI impI)
  let ?p0 = "p\<lparr> state := fulfilled, result := v \<rparr>"
  let ?w2 = "w1\<lparr> heap := heap w1 @ [after_resolve sc v'],
                  log := log w1 @ [Then_call h1 (result p1)] \<rparr>"
  let ?p2 = "p1\<lparr> result := v', wg := wg p1 - 1 \<rparr>"
  from then_loop_kept [OF assms(3)] have k: "state p1 = fulfilled" "catches p1 = catches p"
    by (simp_all add: kept_def)
  have s1: "then_loop (call_then env) (flatten env sc) [h1, h2] (0 + length pre) p1 w1 =
              then_loop (call_then env) (flatten env sc) [h2] (0 + length pre + 1) ?p2 ?w2"
    using assms(7) by (intro then_loop_resolving_step assms(4)) simp
  have s2: "then_loop (call_then env) (flatten env sc) [h2] (0 + length pre + 1) ?p2 ?w2 =
              Ok (?p2\<lparr> result := y, wg := wg ?p2 - 1 \<rparr>,
                  ?w2\<lparr> log := log ?w2 @ [Then_call h2 (result ?p2)] \<rparr>, False)"
    using assms(5,6,7) by (intro then_loop_plain_last) simp_all
  have "then_loop (call_then env) (flatten env sc) (thens p) 0 ?p0 w =
          Ok (?p2\<lparr> result := y, wg := wg ?p2 - 1 \<rparr>,
              ?w2\<lparr> log := log ?w2 @ [Then_call h2 (result ?p2)] \<rparr>, False)"
    unfolding assms(2) then_loop_append [of _ _ pre] assms(3) using s1 s2 by simp
  then show "\<exists>p' w'. u_resolve env sc p v w = Ok (p', w')
            \<and> log w' = log w1 @ [Then_call h1 (result p1), Then_call h2 v']
            \<and> result p' = y \<and> state p' = fulfilled
            \<and> heap w' = heap w1 @ [after_resolve sc v']
            \<and> wg p' = wg p1 - (2 + length (catches p))"
    using assms(1,7) k by (simp add: u_resolve_def resolve_def release_eq)
next
  assume "0 < wg q" "then_fn env g (result q) = Ret_New (Exec [Call_resolve v'] Returns)"
  then show "then_loop (call_then env) (flatten env sc) (g # hs) d q u =
                then_loop (call_then env) (flatten env sc) hs (d + 1)
                  (q\<lparr> result := v', wg := wg q - 1 \<rparr>)
                  (u\<lparr> heap := heap u @ [after_resolve sc v'],
                      log := log u @ [Then_call g (result q)] \<rparr>)"
    by (rule then_loop_resolving_step)
qed

theorem flattening_passes_the_fulfilled_value_witness:
  "state (registered (Exec [Call_resolve (VInt 1)] Returns) [0, 2, 3] []) = pending
   \<and> thens (registered (Exec [Call_resolve (VInt 1)] Returns) [0, 2, 3] []) = [0] @ [2, 3]
   \<and> then_fn demo_env 2 (VInt 2) = Ret_New (Exec [Call_resolve (VInt 228)] Returns)
   \<and> then_fn demo_env 3 (VInt 228) = Ret (VInt 228)
   \<and> (\<exists>p' w'. u_resolve demo_env Before_Catch
                 (registered (Exec [Call_resolve (VInt 1)] Returns) [0, 2, 3] []) (VInt 1) empty_world
                 = Ok (p', w')
         \<and> log w' = [Then_call 0 (VInt 1), Then_call 2 (VInt 2), Then_call 3 (VInt 228)]
         \<and> result p' = VInt 228 \<and> state p' = fulfilled \<and> wg p' = 0)
   \<and> then_loop (call_then demo_env) (flatten demo_env Before_Catch) [2, 3] 1
         ((registered (Exec [Call_resolve (VInt 1)] Returns) [0, 2, 3] [])
            \<lparr> state := fulfilled, result := VInt 2, wg := 2 \<rparr>)
         (empty_world\<lparr> log := [Then_call 0 (VInt 1)] \<rparr>)
       = then_loop (call_then demo_env) (flatten demo_env Before_Catch) [3] 2
           ((registered (Exec [Call_resolve (VInt 1)] Returns) [0, 2, 3] [])
              \<lparr> state := fulfilled, result := VInt 228, wg := 1 \<rparr>)
           (empty_world\<lparr> heap := [after_resolve Before_Catch (VInt 228)],
                         log := [Then_call 0 (VInt 1), Then_call 2 (VInt 2)] \<rparr>)"
proof -
  let ?p = "registered (Exec [Call_resolve (VInt 1)] Returns) [0, 2, 3] []"
  let ?p1 = "?p\<lparr> state := fulfilled, result := VInt 2, wg := 2 \<rparr>"
  let ?w1 = "empty_world\<lparr> log := [Then_call 0 (VInt 1)] \<rparr>"
  have h: "state ?p = pending" "thens ?p = [0] @ [2, 3]"
    "then_loop (call_then demo_env) (flatten demo_env Before_Catch) [0] 0
       (?p\<lparr> state := fulfilled, result := VInt 1 \<rparr>) empty_world = Ok (?p1, ?w1, False)"
    "then_fn demo_env 2 (result ?p1) = Ret_New (Exec [Call_resolve (VInt 228)] Returns)"
    "then_fn demo_env 3 (VInt 228) = Ret (VInt 228)" "\<forall>a. VInt 228 \<noteq> VPromise a"
    "2 + length (catches ?p) \<le> wg ?p1"
    using demo_first_handler by (simp_all add: registered_def demo_env_def)
  have g: "then_fn demo_env 2 (VInt 2) = Ret_New (Exec [Call_resolve (VInt 228)] Returns)"
    by (simp add: demo_env_def)
  note t = flattening_passes_the_fulfilled_value [OF h, where q = "?p1" and g = 2
             and hs = "[3]" and d = 1 and u = "?w1"]
  have "0 < wg ?p1" by simp
  with t h(4) have l: "then_loop (call_then demo_env) (flatten demo_env Before_Catch) [2, 3] 1 ?p1 ?w1
       = then_loop (call_then demo_env) (flatten demo_env Before_Catch) [3] (1 + 1)
           (?p1\<lparr> result := VInt 228, wg := wg ?p1 - 1 \<rparr>)
           (?w1\<lparr> heap := heap ?w1 @ [after_resolve Before_Catch (VInt 228)],
                 log := log ?w1 @ [Then_call 2 (result ?p1)] \<rparr>)"
    by blast
  have l': "then_loop (call_then demo_env) (flatten demo_env Before_Catch) [2, 3] 1 ?p1 ?w1
       = then_loop (call_then demo_env) (flatten demo_env Before_Catch) [3] 2
           (?p\<lparr> state := fulfilled, result := VInt 228, wg := 1 \<rparr>)
           (empty_world\<lparr> heap := [after_resolve Before_Catch (VInt 228)],
                         log := [Then_call 0 (VInt 1), Then_call 2 (VInt 2)] \<rparr>)"
    unfolding l by (simp add: empty_world_def numeral_2_eq_2 del: then_loop.simps)
  from t
  obtain p' w' where
    a: "u_resolve demo_env Before_Catch ?p (VInt 1) empty_world = Ok (p', w')"
       "log w' = log ?w1 @ [Then_call 2 (result ?p1), Then_call 3 (VInt 228)]"
       "result p' = VInt 228" "state p' = fulfilled" "wg p' = wg ?p1 - (2 + length (catches ?p))"
    by blast
  have "log w' = [Then_call 0 (VInt 1), Then_call 2 (VInt 2), Then_call 3 (VInt 228)]" "wg p' = 0"
    using a(2,5) by (simp_all add: empty_world_def registered_def)
  with a(1,3,4) h(1,2,5) g l' show ?thesis by blast
qed

text \<open>
  Claim C6. Flattening with rejection. A pending promise has the fulfillment handlers
  \<open>h1\<close> and further ones, and rejection handlers; \<^verbatim>\<open>resolve(v)\<close> runs; \<open>h1\<close> returns a
  new promise whose executor calls \<^verbatim>\<open>reject(e)\<close>. Then, whenever that executor gets to
  run, \<^verbatim>\<open>resolve\<close> returns; what it added to the log is the call of \<open>h1\<close> followed by
  the calls of the rejection handlers, the first of them on exactly \<open>e\<close> (with a single
  rejection handler: that one call); no further fulfillment handler was called; and
  the outer promise is fulfilled, not rejected, with its error field untouched.
\<close>

theorem flattening_rejection_short_circuits:
  assumes "state p = pending" and "thens p = h1 # hs"
    and "length (thens p) + length (catches p) \<le> wg p"
    and "then_fn env h1 v = Ret_New (Exec [Call_reject e] Returns)"
  shows "\<exists>p' w'. u_resolve env sc p v w = Ok (p', w')
           \<and> log w' = log w @ Then_call h1 v # catch_trace env (catches p) e
           \<and> (\<forall>c. catches p = [c] \<longrightarrow> log w' = log w @ [Then_call h1 v, Catch_call c e])
           \<and> state p' = fulfilled \<and> error p' = error p
           \<and> result p' = VPromise (length (heap w))
           \<and> wg p' = wg p - (length (thens p) + length (catches p))"
proof -
  let ?p0 = "p\<lparr> state := fulfilled, result := v \<rparr>"
  let ?w1 = "w\<lparr> heap := heap w @ [New (Exec [Call_reject e] Returns)],
                 log := log w @ [Then_call h1 v] \<rparr>"
  let ?p1 = "?p0\<lparr> result := VPromise (length (heap w)) \<rparr>"
  have c1: "call_then env h1 (result ?p0) w = Ok (VPromise (length (heap w)), ?w1)"
    using assms(4) by (simp add: call_then_def)
  have f1: "flatten env sc 0 ?p1 ?w1 =
              Ok (?p1\<lparr> wg := wg ?p1 - (length (thens ?p1) - 0 + length (catches ?p1)) \<rparr>,
                  ?w1\<lparr> heap := (heap ?w1)[length (heap w) := after_reject env sc (catches ?p1) e],
                       log := log ?w1 @ catch_trace env (catches ?p1) e \<rparr>, True)"
    by (rule flatten_rejecting) (use assms(3) in \<open>simp_all add: nth_append\<close>)
  have "then_loop (call_then env) (flatten env sc) (h1 # hs) 0 ?p0 w =
          Ok (?p1\<lparr> wg := wg ?p1 - (length (thens ?p1) - 0 + length (catches ?p1)) \<rparr>,
              ?w1\<lparr> heap := (heap ?w1)[length (heap w) := after_reject env sc (catches ?p1) e],
                   log := log ?w1 @ catch_trace env (catches ?p1) e \<rparr>, True)"
    using c1 f1 by simp
  then show ?thesis
    using assms(1,2,3) by (simp add: u_resolve_def resolve_def)
qed


theorem flattening_rejection_short_circuits_witness:
  "state (registered (Exec [Call_resolve (VInt 1)] Returns) [4, 3] [2]) = pending
   \<and> then_fn demo_env 4 (VInt 1) = Ret_New (Exec [Call_reject (Some (errors_New ''ERROR!''))] Returns)
   \<and> (\<exists>p' w'. u_resolve demo_env During_Await
                 (registered (Exec [Call_resolve (VInt 1)] Returns) [4, 3] [2]) (VInt 1) empty_world
                 = Ok (p', w')
         \<and> log w' = [Then_call 4 (VInt 1), Catch_call 2 (Some (errors_New ''ERROR!''))]
         \<and> state p' = fulfilled \<and> error p' = None \<and> wg p' = 0)"
proof -
  let ?p = "registered (Exec [Call_resolve (VInt 1)] Returns) [4, 3] [2]"
  have h: "state ?p = pending" "thens ?p = [4, 3]"
    "length (thens ?p) + length (catches ?p) \<le> wg ?p"
    "then_fn demo_env 4 (VInt 1) = Ret_New (Exec [Call_reject (Some (errors_New ''ERROR!''))] Returns)"
    by (simp_all add: registered_def demo_env_def)
  have c: "catches ?p = [2]" "error ?p = None"
    "wg ?p - (length (thens ?p) + length (catches ?p)) = 0" "log empty_world = []"
    by (simp_all add: registered_def empty_world_def)
  from flattening_rejection_short_circuits [OF h, of During_Await empty_world]
  obtain p' w' where
    a: "u_resolve demo_env During_Await ?p (VInt 1) empty_world = Ok (p', w')"
       "\<forall>c. catches ?p = [c] \<longrightarrow>
          log w' = log empty_world @ [Then_call 4 (VInt 1), Catch_call c (Some (errors_New ''ERROR!''))]"
       "state p' = fulfilled" "error p' = error ?p"
       "wg p' = wg ?p - (length (thens ?p) + length (catches ?p))"
    by blast
  from a(2) c(1,4) have "log w' = [Then_call 4 (VInt 1), Catch_call 2 (Some (errors_New ''ERROR!''))]"
    by simp
  with a(1,3,4,5) c(2,3) h(1,4) show ?thesis by auto
qed

section \<open>Completion accounting\<close>

lemma k_catch_eq:
  "k_catch env k e fr =
     (if length (thens (outer fr)) - doneCounter fr + length (catches (outer fr)) \<le> wg (outer fr)
      then Ok (chain_result env (catches (outer fr)) e,
               fr\<lparr> isRejected := True,
                   outer := (outer fr)\<lparr> wg := wg (outer fr)
                       - (length (thens (outer fr)) - doneCounter fr + length (catches (outer fr))) \<rparr>,
                   fworld := (fworld fr)\<lparr> log := log (fworld fr)
                       @ catch_trace env (catches (outer fr)) e \<rparr> \<rparr>)
      else Crash Negative_WaitGroup)"
  by (auto simp: k_catch_def Let_def release_eq chain_loop_user)

lemma nested_then_loop_step:
  "then_loop k_then no_flatten (t # ts) dc n fr =
     (if wg n = 0 then Crash Negative_WaitGroup
      else then_loop k_then no_flatten ts (dc + 1) (n\<lparr> result := VNil, wg := wg n - 1 \<rparr>)
             (fr\<lparr> outer := (outer fr)\<lparr> result := result n \<rparr> \<rparr>))"
proof -
  have a: "k_then t (result n) fr = Ok (VNil, fr\<lparr> outer := (outer fr)\<lparr> result := result n \<rparr> \<rparr>)"
    by (simp add: k_then_def)
  have b: "no_flatten dc (n\<lparr> result := VNil \<rparr>) (fr\<lparr> outer := (outer fr)\<lparr> result := result n \<rparr> \<rparr>)
             = Ok (n\<lparr> result := VNil \<rparr>, fr\<lparr> outer := (outer fr)\<lparr> result := result n \<rparr> \<rparr>, False)"
    by (simp add: no_flatten_def)
  show ?thesis by (simp add: a b wg_Done_def)
qed

lemma nested_then_loop_state:
  "then_loop k_then no_flatten ts dc n fr = Ok (n', fr', b) \<Longrightarrow> state n' = state n"
proof (induction ts arbitrary: dc n fr)
  case Nil
  then show ?case by simp
next
  case (Cons t ts)
  from Cons.prems have
    "then_loop k_then no_flatten ts (dc + 1) (n\<lparr> result := VNil, wg := wg n - 1 \<rparr>)
             (fr\<lparr> outer := (outer fr)\<lparr> result := result n \<rparr> \<rparr>) = Ok (n', fr', b)"
    by (simp add: nested_then_loop_step del: then_loop.simps split: if_splits)
  from Cons.IH [OF this] show ?case by simp
qed

lemma nested_resolve_state:
  "state n = pending \<Longrightarrow> resolve k_then no_flatten n v fr = Ok (n', fr') \<Longrightarrow> state n' = fulfilled"
  by (auto simp: resolve_def bnd_eq_Ok release_eq split: if_splits dest!: nested_then_loop_state)

lemma inner_then_loop_no_fault:
  "then_loop k_then no_flatten ts dc n fr \<noteq> Crash Beyond_model"
proof (induction ts arbitrary: dc n fr)
  case Nil
  show ?case by simp
next
  case (Cons t ts)
  show ?case
    by (simp add: nested_then_loop_step Cons del: then_loop.simps)
qed

lemma reject_state:
  "state n = pending \<Longrightarrow> reject cc n e fr = Ok (n', fr') \<Longrightarrow> state n' = rejected"
  by (auto simp: reject_def bnd_eq_Ok)

lemma nested_run_calls_cases:
  assumes "run_calls k_then (k_catch env) no_flatten as n fr = Ok (n', fr')"
  shows "(n' = n \<and> fr' = fr)
         \<or> (state n = pending \<and> state n' \<noteq> pending
             \<and> ((\<exists>v. resolve k_then no_flatten n v fr = Ok (n', fr'))
                 \<or> (\<exists>e. reject (k_catch env) n e fr = Ok (n', fr'))))"
  using assms
proof (induction as arbitrary: n fr)
  case Nil
  then show ?case by simp
next
  case (Cons a as)
  show ?case
  proof (cases "state n = pending")
    case False
    with Cons.prems show ?thesis by (simp add: run_calls_settled)
  next
    case True
    show ?thesis
    proof (cases a)
      case (Call_resolve v)
      with Cons.prems obtain n1 fr1 where
        a: "resolve k_then no_flatten n v fr = Ok (n1, fr1)" and
        b: "run_calls k_then (k_catch env) no_flatten as n1 fr1 = Ok (n', fr')"
        by (auto simp: bnd_eq_Ok)
      from nested_resolve_state [OF True a] have s: "state n1 \<noteq> pending" by simp
      with b have "n' = n1" "fr' = fr1" by (simp_all add: run_calls_settled)
      with a s True show ?thesis by blast
    next
      case (Call_reject e)
      with Cons.prems obtain n1 fr1 where
        a: "reject (k_catch env) n e fr = Ok (n1, fr1)" and
        b: "run_calls k_then (k_catch env) no_flatten as n1 fr1 = Ok (n', fr')"
        by (auto simp: bnd_eq_Ok)
      from reject_state [OF True a] have s: "state n1 \<noteq> pending" by simp
      with b have "n' = n1" "fr' = fr1" by (simp_all add: run_calls_settled)
      with a s True show ?thesis by blast
    qed
  qed
qed

lemma nested_goroutine_cases:
  assumes "goroutine k_then (k_catch env) no_flatten n fr = Ok (n', fr')"
  shows "(n' = n \<and> fr' = fr)
         \<or> (state n = pending \<and> state n' \<noteq> pending
             \<and> ((\<exists>v. resolve k_then no_flatten n v fr = Ok (n', fr'))
                 \<or> (\<exists>e. reject (k_catch env) n e fr = Ok (n', fr'))))"
proof -
  from assms obtain n1 fr1 r where
    a: "run_calls k_then (k_catch env) no_flatten (calls (executor n)) n fr = Ok (n1, fr1)" and
    b: "handlePanic (k_catch env) n1 r fr1 = Ok (n', fr')"
    by (cases "ending (executor n)") (auto simp: goroutine_def bnd_eq_Ok)
  show ?thesis
  proof (cases "state n1 = pending")
    case False
    with b have "n' = n1 \<and> fr' = fr1"
      by (cases r) (simp_all add: handlePanic_def reject_settled)
    with nested_run_calls_cases [OF a] show ?thesis by blast
  next
    case True
    with nested_run_calls_cases [OF a] have e: "n1 = n" "fr1 = fr" by auto
    show ?thesis
    proof (cases r)
      case (VStr s)
      with b e have c: "reject (k_catch env) n (Some (errors_New s)) fr = Ok (n', fr')"
        by (simp add: handlePanic_def)
      from reject_state [OF _ c] True e c show ?thesis by auto
    qed (use b e in \<open>simp_all add: handlePanic_def\<close>)
  qed
qed


lemma nested_Then_eq:
  "Then k_then t n fr =
     (if state n = pending then Ok (n\<lparr> wg := wg n + 1, thens := thens n @ [t] \<rparr>, fr)
      else if state n = fulfilled then
        Ok (n\<lparr> result := VNil \<rparr>, fr\<lparr> outer := (outer fr)\<lparr> result := result n \<rparr> \<rparr>)
      else Ok (n, fr))"
  by (simp add: Then_def k_then_def wg_Add_def)

lemma nested_Catch_eq:
  "Catch (k_catch env) c n fr =
     (if state n = pending then Ok (n\<lparr> wg := wg n + 1, catches := catches n @ [c] \<rparr>, fr)
      else if state n = rejected then
        (if length (thens (outer fr)) - doneCounter fr + length (catches (outer fr)) \<le> wg (outer fr)
         then Ok (n\<lparr> error := chain_result env (catches (outer fr)) (error n) \<rparr>,
                  fr\<lparr> isRejected := True,
                      outer := (outer fr)\<lparr> wg := wg (outer fr)
                          - (length (thens (outer fr)) - doneCounter fr + length (catches (outer fr))) \<rparr>,
                      fworld := (fworld fr)\<lparr> log := log (fworld fr)
                          @ catch_trace env (catches (outer fr)) (error n) \<rparr> \<rparr>)
         else Crash Negative_WaitGroup)
      else Ok (n, fr))"
  by (simp add: Catch_def wg_Add_def k_catch_eq)

lemma nested_resolve_0:
  "state n = pending \<Longrightarrow> thens n = [] \<Longrightarrow>
   resolve k_then no_flatten n v fr =
     (if length (catches n) \<le> wg n
      then Ok (n\<lparr> state := fulfilled, result := v, wg := wg n - length (catches n) \<rparr>, fr)
      else Crash Negative_WaitGroup)"
  by (simp add: resolve_def release_eq)

lemma nested_resolve_1:
  "state n = pending \<Longrightarrow> thens n = [t] \<Longrightarrow>
   resolve k_then no_flatten n v fr =
     (if 1 + length (catches n) \<le> wg n
      then Ok (n\<lparr> state := fulfilled, result := VNil, wg := wg n - (1 + length (catches n)) \<rparr>,
               fr\<lparr> outer := (outer fr)\<lparr> result := v \<rparr> \<rparr>)
      else Crash Negative_WaitGroup)"
  by (auto simp add: resolve_def release_eq nested_then_loop_step simp del: then_loop.simps(2))

lemma nested_reject_0:
  "state n = pending \<Longrightarrow> catches n = [] \<Longrightarrow>
   reject cc n e fr =
     (if length (thens n) \<le> wg n
      then Ok (n\<lparr> wg := wg n - length (thens n), error := e, state := rejected \<rparr>, fr)
      else Crash Negative_WaitGroup)"
  by (simp add: reject_def release_eq)

lemma nested_reject_1:
  "state n = pending \<Longrightarrow> catches n = [c] \<Longrightarrow>
   reject (k_catch env) n e fr =
     (if 1 + length (thens n) \<le> wg n
         \<and> length (thens (outer fr)) - doneCounter fr + length (catches (outer fr)) \<le> wg (outer fr)
      then Ok (n\<lparr> wg := wg n - (1 + length (thens n)),
                  error := chain_result env (catches (outer fr)) e, state := rejected \<rparr>,
               fr\<lparr> isRejected := True,
                   outer := (outer fr)\<lparr> wg := wg (outer fr)
                       - (length (thens (outer fr)) - doneCounter fr + length (catches (outer fr))) \<rparr>,
                   fworld := (fworld fr)\<lparr> log := log (fworld fr)
                       @ catch_trace env (catches (outer fr)) e \<rparr> \<rparr>)
      else Crash Negative_WaitGroup)"
  by (auto simp add: reject_def release_eq k_catch_eq wg_Done_def)

lemma heap_ok_nth: "heap_ok w \<Longrightarrow> a < length (heap w) \<Longrightarrow> fresh_or_settled (heap w ! a)"
  by (simp add: heap_ok_def list_all_length)

lemma list_all_update: "list_all P xs \<Longrightarrow> P x \<Longrightarrow> list_all P (xs[a := x])"
  by (induction xs arbitrary: a) (auto split: nat.splits)

lemma settled_fresh: "state n \<noteq> pending \<Longrightarrow> fresh_or_settled n"
  by (simp add: fresh_or_settled_def)

lemmas leaf_simps =
  nested_Then_eq nested_Catch_eq Await_def flat_post_def heap_ok_def
  list_all_update settled_fresh bnd_eq_Ok

lemma flatten_post:
  assumes ok: "heap_ok w" and fl: "flatten env sc dc p w = Ok (p', w', b)"
  shows "flat_post env dc p w p' w' b"
proof (cases "result p")
  case (VPromise a)
  with fl have lt: "a < length (heap w)"
    by (auto simp: flatten_def split: if_splits)
  define n0 where "n0 = heap w ! a"
  define fr0 where "fr0 = \<lparr> outer = p, isRejected = False, doneCounter = dc, fworld = w \<rparr>"
  have fs: "state n0 = pending \<Longrightarrow> thens n0 = [] \<and> catches n0 = []"
    using heap_ok_nth [OF ok lt] by (simp add: n0_def fresh_or_settled_def)
  have fr0s [simp]: "outer fr0 = p" "isRejected fr0 = False" "doneCounter fr0 = dc" "fworld fr0 = w"
    by (simp_all add: fr0_def)
  show ?thesis
  proof (cases sc)
    case Before_Then
    with fl VPromise lt obtain n1 fr1 where
      g: "goroutine k_then (k_catch env) no_flatten n0 fr0 = Ok (n1, fr1)" and
      r: "bnd (Then k_then Cont_then n1 fr1) (\<lambda>(n2, fr2).
          bnd (Catch (k_catch env) Cont_catch n2 fr2) (\<lambda>(n4, fr4).
          bnd (Await n4) (\<lambda>_.
            Ok (outer fr4, (fworld fr4)\<lparr> heap := (heap (fworld fr4))[a := n4] \<rparr>, isRejected fr4))))
          = Ok (p', w', b)"
      by (auto simp: flatten_def at_moment_def bnd_eq_Ok n0_def fr0_def)
    from nested_goroutine_cases [OF g] consider
      (same) "n1 = n0" "fr1 = fr0"
      | (res) v where "state n0 = pending" "resolve k_then no_flatten n0 v fr0 = Ok (n1, fr1)"
      | (rej) e where "state n0 = pending" "reject (k_catch env) n0 e fr0 = Ok (n1, fr1)"
      by blast
    then show ?thesis
    proof cases
      case same
      show ?thesis
      proof (cases "state n0")
        case pending
        with r same show ?thesis by (auto simp: leaf_simps fr0_def split: if_splits)
      next
        case fulfilled
        with r same ok show ?thesis by (auto simp: leaf_simps fr0_def split: if_splits)
      next
        case rejected
        with r same ok show ?thesis by (auto simp: leaf_simps fr0_def split: if_splits)
      qed
    next
      case res
      with fs have "n1 = n0\<lparr> state := fulfilled, result := v, wg := wg n0 - 0 \<rparr>" "fr1 = fr0"
        by (auto simp: nested_resolve_0 split: if_splits)
      with r ok show ?thesis by (auto simp: leaf_simps fr0_def split: if_splits)
    next
      case rej
      with fs have "n1 = n0\<lparr> wg := wg n0 - 0, error := e, state := rejected \<rparr>" "fr1 = fr0"
        by (auto simp: nested_reject_0 split: if_splits)
      with r ok show ?thesis by (auto simp: leaf_simps fr0_def split: if_splits)
    qed
  next
    case Before_Catch
    with fl VPromise lt obtain n2 fr2 n3 fr3 where
      t: "Then k_then Cont_then n0 fr0 = Ok (n2, fr2)" and
      g: "goroutine k_then (k_catch env) no_flatten n2 fr2 = Ok (n3, fr3)" and
      r: "bnd (Catch (k_catch env) Cont_catch n3 fr3) (\<lambda>(n4, fr4).
          bnd (Await n4) (\<lambda>_.
            Ok (outer fr4, (fworld fr4)\<lparr> heap := (heap (fworld fr4))[a := n4] \<rparr>, isRejected fr4)))
          = Ok (p', w', b)"
      by (auto simp: flatten_def at_moment_def bnd_eq_Ok n0_def fr0_def)
    from nested_goroutine_cases [OF g] consider
      (same) "n3 = n2" "fr3 = fr2"
      | (res) v where "state n2 = pending" "resolve k_then no_flatten n2 v fr2 = Ok (n3, fr3)"
      | (rej) e where "state n2 = pending" "reject (k_catch env) n2 e fr2 = Ok (n3, fr3)"
      by blast
    then show ?thesis
    proof cases
      case same
      show ?thesis
      proof (cases "state n0")
        case pending
        with r t same show ?thesis by (auto simp: leaf_simps fr0_def split: if_splits)
      next
        case fulfilled
        with r t same ok show ?thesis by (auto simp: leaf_simps fr0_def split: if_splits)
      next
        case rejected
        with r t same ok show ?thesis by (auto simp: leaf_simps fr0_def split: if_splits)
      qed
    next
      case res
      from res(1) t have p0: "state n0 = pending"
        and n2: "n2 = n0\<lparr> wg := wg n0 + 1, thens := thens n0 @ [Cont_then] \<rparr>" "fr2 = fr0"
        by (auto simp: nested_Then_eq split: if_splits)
      with fs have "thens n2 = [Cont_then]" "catches n2 = []" by simp_all
      with res n2 have
        "n3 = n2\<lparr> state := fulfilled, result := VNil, wg := wg n2 - (1 + 0) \<rparr>"
        "fr3 = fr0\<lparr> outer := p\<lparr> result := v \<rparr> \<rparr>"
        by (auto simp: nested_resolve_1 split: if_splits)
      with r ok n2 show ?thesis by (auto simp: leaf_simps fr0_def split: if_splits)
    next
      case rej
      from rej(1) t have p0: "state n0 = pending"
        and n2: "n2 = n0\<lparr> wg := wg n0 + 1, thens := thens n0 @ [Cont_then] \<rparr>" "fr2 = fr0"
        by (auto simp: nested_Then_eq split: if_splits)
      with fs have "thens n2 = [Cont_then]" "catches n2 = []" by simp_all
      with rej n2 have
        "n3 = n2\<lparr> wg := wg n2 - 1, error := e, state := rejected \<rparr>" "fr3 = fr0"
        by (auto simp: nested_reject_0 split: if_splits)
      with r ok n2 show ?thesis by (auto simp: leaf_simps fr0_def split: if_splits)
    qed
  next
    case During_Await
    with fl VPromise lt obtain n2 fr2 n4 fr4 n5 fr5 where
      t: "Then k_then Cont_then n0 fr0 = Ok (n2, fr2)" and
      c: "Catch (k_catch env) Cont_catch n2 fr2 = Ok (n4, fr4)" and
      g: "goroutine k_then (k_catch env) no_flatten n4 fr4 = Ok (n5, fr5)" and
      r: "bnd (Await n5) (\<lambda>_.
            Ok (outer fr5, (fworld fr5)\<lparr> heap := (heap (fworld fr5))[a := n5] \<rparr>, isRejected fr5))
          = Ok (p', w', b)"
      by (auto simp: flatten_def at_moment_def bnd_eq_Ok n0_def fr0_def)
    from nested_goroutine_cases [OF g] consider
      (same) "n5 = n4" "fr5 = fr4"
      | (res) v where "state n4 = pending" "resolve k_then no_flatten n4 v fr4 = Ok (n5, fr5)"
      | (rej) e where "state n4 = pending" "reject (k_catch env) n4 e fr4 = Ok (n5, fr5)"
      by blast
    then show ?thesis
    proof cases
      case same
      show ?thesis
      proof (cases "state n0")
        case pending
        with r t c same show ?thesis by (auto simp: leaf_simps fr0_def split: if_splits)
      next
        case fulfilled
        with r t c same ok show ?thesis by (auto simp: leaf_simps fr0_def split: if_splits)
      next
        case rejected
        with r t c same ok show ?thesis by (auto simp: leaf_simps fr0_def split: if_splits)
      qed
    next
      case res
      from res(1) t c have p0: "state n0 = pending"
        and n4: "n4 = n0\<lparr> wg := wg n0 + 2, thens := thens n0 @ [Cont_then],
                            catches := catches n0 @ [Cont_catch] \<rparr>" "fr4 = fr0"
        by (auto simp: nested_Then_eq nested_Catch_eq split: if_splits)
      with fs have "thens n4 = [Cont_then]" "catches n4 = [Cont_catch]" by simp_all
      with res n4 have
        "n5 = n4\<lparr> state := fulfilled, result := VNil, wg := wg n4 - (1 + 1) \<rparr>"
        "fr5 = fr0\<lparr> outer := p\<lparr> result := v \<rparr> \<rparr>"
        by (auto simp: nested_resolve_1 split: if_splits)
      with r ok n4 show ?thesis by (auto simp: leaf_simps fr0_def split: if_splits)
    next
      case rej
      from rej(1) t c have p0: "state n0 = pending"
        and n4: "n4 = n0\<lparr> wg := wg n0 + 2, thens := thens n0 @ [Cont_then],
                            catches := catches n0 @ [Cont_catch] \<rparr>" "fr4 = fr0"
        by (auto simp: nested_Then_eq nested_Catch_eq split: if_splits)
      with fs have l: "thens n4 = [Cont_then]" "catches n4 = [Cont_catch]" by simp_all
      from rej(2) n4(2) show ?thesis
        using r ok rej(1) l
        by (auto simp: nested_reject_1 [OF rej(1) l(2)] leaf_simps fr0_def split: if_splits)
    qed
  qed
qed (use assms in \<open>auto simp: flatten_def flat_post_def intro!: exI [of _ "result p'"]\<close>)


lemma then_names_append: "then_names (xs @ ys) = then_names xs @ then_names ys"
  by (induction xs rule: then_names.induct) auto

lemma catch_names_append: "catch_names (xs @ ys) = catch_names xs @ catch_names ys"
  by (induction xs rule: catch_names.induct) auto

lemma call_then_post:
  assumes "call_then env h v w = Ok (r, w1)" and "heap_ok w"
  shows "heap_ok w1 \<and> log w1 = log w @ [Then_call h v]"
  using assms
  by (cases "then_fn env h v")
     (auto simp: call_then_def heap_ok_def fresh_or_settled_def New_def)

lemma then_loop_account:
  assumes "then_loop (call_then env) (flatten env sc) hs dc p w = Ok (p', w', b)"
    and "heap_ok w" and "dc + length hs = length (thens p)"
  shows "heap_ok w' \<and>
         (\<exists>evs. log w' = log w @ evs \<and>
            (if b then (\<exists>k<length hs. then_names evs = take (Suc k) hs)
                  \<and> catch_names evs = catches p
                  \<and> wg p = wg p' + length hs + length (catches p)
             else then_names evs = hs \<and> catch_names evs = []
                  \<and> wg p = wg p' + length hs))"
  using assms
proof (induction hs arbitrary: dc p w)
  case Nil
  then show ?case by simp
next
  case (Cons h hs)
  from Cons.prems(1) obtain r w1 p2 w2 isRej where
    a: "call_then env h (result p) w = Ok (r, w1)" and
    f: "flatten env sc dc (p\<lparr> result := r \<rparr>) w1 = Ok (p2, w2, isRej)" and
    c: "(if isRej then Ok (p2, w2, True)
         else bnd (wg_Done p2) (\<lambda>p3. then_loop (call_then env) (flatten env sc) hs (dc + 1) p3 w2))
        = Ok (p', w', b)"
    by (auto simp: bnd_eq_Ok)
  from call_then_post [OF a Cons.prems(2)] have
    ok1: "heap_ok w1" and l1: "log w1 = log w @ [Then_call h (result p)]"
    by simp_all
  from flatten_post [OF ok1 f] have fp: "flat_post env dc (p\<lparr> result := r \<rparr>) w1 p2 w2 isRej" .
  show ?case
  proof (cases isRej)
    case True
    with c have e: "p' = p2" "w' = w2" "b" by simp_all
    from fp True obtain er where
      le: "length (thens p) - dc + length (catches p) \<le> wg p" and
      p2: "p2 = p\<lparr> result := r, wg := wg p - (length (thens p) - dc + length (catches p)) \<rparr>" and
      l2: "log w2 = log w1 @ catch_trace env (catches p) er" and ok2: "heap_ok w2"
      by (auto simp: flat_post_def)
    have n: "length (thens p) - dc = Suc (length hs)"
      using Cons.prems(3) by simp
    have "log w' = log w @ (Then_call h (result p) # catch_trace env (catches p) er)"
      using e l1 l2 by simp
    moreover have "then_names (Then_call h (result p) # catch_trace env (catches p) er)
                     = take (Suc 0) (h # hs)"
      by (simp add: then_names_catch_trace)
    moreover have "catch_names (Then_call h (result p) # catch_trace env (catches p) er) = catches p"
      by (simp add: catch_names_catch_trace)
    moreover have "wg p = wg p' + length (h # hs) + length (catches p)"
      using e p2 le n by simp
    ultimately show ?thesis using e ok2 by (intro conjI exI) (auto simp del: take_Suc_Cons)
  next
    case False
    with c obtain p3 where
      d: "wg_Done p2 = Ok p3" and
      t: "then_loop (call_then env) (flatten env sc) hs (dc + 1) p3 w2 = Ok (p', w', b)"
      by (auto simp: bnd_eq_Ok)
    from fp False obtain v where
      p2: "p2 = p\<lparr> result := v \<rparr>" and l2: "log w2 = log w1" and ok2: "heap_ok w2"
      by (auto simp: flat_post_def)
    from d p2 have p3: "0 < wg p" "p3 = p\<lparr> result := v, wg := wg p - 1 \<rparr>"
      by (auto simp: wg_Done_def split: if_splits)
    have "dc + 1 + length hs = length (thens p3)"
      using Cons.prems(3) p3 by simp
    from Cons.IH [OF t ok2 this] obtain evs where
      ih: "heap_ok w'" "log w' = log w2 @ evs"
        "if b then (\<exists>k<length hs. then_names evs = take (Suc k) hs)
                  \<and> catch_names evs = catches p3
                  \<and> wg p3 = wg p' + length hs + length (catches p3)
         else then_names evs = hs \<and> catch_names evs = []
                  \<and> wg p3 = wg p' + length hs"
      by blast
    have lg: "log w' = log w @ (Then_call h (result p) # evs)"
      using ih(2) l1 l2 by simp
    show ?thesis
    proof (cases b)
      case True
      with ih(3) obtain k where k: "k < length hs" "then_names evs = take (Suc k) hs"
        and r: "catch_names evs = catches p3" "wg p3 = wg p' + length hs + length (catches p3)"
        by auto
      have "Suc k < length (h # hs)" using k(1) by simp
      moreover have "then_names (Then_call h (result p) # evs) = take (Suc (Suc k)) (h # hs)"
        using k(2) by simp
      moreover have "catch_names (Then_call h (result p) # evs) = catches p"
        using r(1) p3 by simp
      moreover have "wg p = wg p' + length (h # hs) + length (catches p)"
        using r(2) p3 by simp
      ultimately show ?thesis using True ih(1) lg by (intro conjI exI) auto
    next
      case False
      with ih(3) have "then_names (Then_call h (result p) # evs) = h # hs"
        "catch_names (Then_call h (result p) # evs) = []"
        "wg p = wg p' + length (h # hs)"
        using p3 by auto
      with False ih(1) lg show ?thesis by (intro conjI exI) auto
    qed
  qed
qed

lemma resolve_user_account:
  assumes "heap_ok w" and "state p = pending" and "u_resolve env sc p v w = Ok (p', w')"
  shows "wg p = wg p' + length (thens p) + length (catches p)
         \<and> (\<exists>evs. log w' = log w @ evs
               \<and> (if returned_early env sc p v w
                   then (\<exists>k<length (thens p). then_names evs = take (Suc k) (thens p))
                        \<and> catch_names evs = catches p
                   else then_names evs = thens p \<and> catch_names evs = []))"
proof -
  let ?p0 = "p\<lparr> state := fulfilled, result := v \<rparr>"
  from assms(2,3) obtain p1 w1 b where
    t: "then_loop (call_then env) (flatten env sc) (thens p) 0 ?p0 w = Ok (p1, w1, b)" and
    r: "(if b then Ok (p1, w1) else bnd (release (length (catches p1)) p1) (\<lambda>p2. Ok (p2, w1)))
          = Ok (p', w')"
    by (auto simp: u_resolve_def resolve_def bnd_eq_Ok)
  have re: "returned_early env sc p v w = b"
    using t by (simp add: returned_early_def)
  from then_loop_kept [OF t] have k: "catches p1 = catches p"
    by (simp add: kept_def)
  have "0 + length (thens p) = length (thens ?p0)" by simp
  from then_loop_account [OF t assms(1) this] obtain evs where
    a: "log w1 = log w @ evs"
       "if b then (\<exists>k<length (thens p). then_names evs = take (Suc k) (thens p))
                  \<and> catch_names evs = catches ?p0
                  \<and> wg ?p0 = wg p1 + length (thens p) + length (catches ?p0)
        else then_names evs = thens p \<and> catch_names evs = []
                  \<and> wg ?p0 = wg p1 + length (thens p)"
    by blast
  show ?thesis
  proof (cases b)
    case True
    with r a re show ?thesis by auto
  next
    case False
    with r k have "length (catches p) \<le> wg p1" "p' = p1\<lparr> wg := wg p1 - length (catches p) \<rparr>" "w' = w1"
      by (auto simp: release_eq bnd_eq_Ok split: if_splits)
    with False a re show ?thesis by auto
  qed
qed

text \<open>
  Claim C4. Completion accounting. Take a pending promise (in a world whose heap holds
  only promises as handlers make them, or settled ones) and a settling call that
  returns. On the rejection path the call releases one unit per registered handler,
  calls no fulfillment handler and every rejection handler once, in order. On the
  fulfillment path it likewise releases exactly one unit per registered handler; when
  the loop was not left early, every fulfillment handler was called once, in order, and
  no rejection handler was called (all of them were bypassed, their units released);
  when it was left early because a returned promise rejected, the fulfillment handlers
  up to the one that returned the promise were called once each, the later ones were
  bypassed, and every rejection handler was called once, in order. So the counter,
  which is the number of registered handlers when all of them were registered while the
  promise was pending, is zero after the call.
\<close>

theorem completion_accounting:
  assumes "heap_ok w" and "state p = pending"
  shows "(u_reject env p e w = Ok (p', w') \<longrightarrow>
            wg p = wg p' + length (thens p) + length (catches p)
            \<and> (wg p = length (thens p) + length (catches p) \<longrightarrow> wg p' = 0)
            \<and> (\<exists>evs. log w' = log w @ evs \<and> then_names evs = [] \<and> catch_names evs = catches p))
         \<and> (u_resolve env sc p v w = Ok (p', w') \<longrightarrow>
            wg p = wg p' + length (thens p) + length (catches p)
            \<and> (wg p = length (thens p) + length (catches p) \<longrightarrow> wg p' = 0)
            \<and> (\<exists>evs. log w' = log w @ evs
                  \<and> (if returned_early env sc p v w
                      then (\<exists>k<length (thens p). then_names evs = take (Suc k) (thens p))
                           \<and> catch_names evs = catches p
                      else then_names evs = thens p \<and> catch_names evs = [])))"
proof (intro conjI impI)
  assume a: "u_reject env p e w = Ok (p', w')"
  from reject_user_Ok [OF assms(2) a] have le: "length (thens p) + length (catches p) \<le> wg p" .
  from reject_user [OF assms(2) le, of env e w] a
  have p': "p' = p\<lparr> error := chain_result env (catches p) e,
                     wg := wg p - (length (thens p) + length (catches p)), state := rejected \<rparr>"
    and w': "w' = w\<lparr> log := log w @ catch_trace env (catches p) e \<rparr>"
    by simp_all
  show "wg p = wg p' + length (thens p) + length (catches p)"
    using p' le by simp
  show "wg p' = 0" if "wg p = length (thens p) + length (catches p)"
    using p' that by simp
  show "\<exists>evs. log w' = log w @ evs \<and> then_names evs = [] \<and> catch_names evs = catches p"
    using w' by (simp add: then_names_catch_trace catch_names_catch_trace)
next
  assume a: "u_resolve env sc p v w = Ok (p', w')"
  note r = resolve_user_account [OF assms a]
  from r show "wg p = wg p' + length (thens p) + length (catches p)" by blast
  from r show "wg p' = 0" if "wg p = length (thens p) + length (catches p)"
    using that by simp
  from r show "\<exists>evs. log w' = log w @ evs
                  \<and> (if returned_early env sc p v w
                      then (\<exists>k<length (thens p). then_names evs = take (Suc k) (thens p))
                           \<and> catch_names evs = catches p
                      else then_names evs = thens p \<and> catch_names evs = [])"
    by blast
qed


lemma demo_short_circuit:
  "then_loop (call_then demo_env) (flatten demo_env During_Await) [0, 4, 3] 0
     ((registered (Exec [] Returns) [0, 4, 3] [2, 1])\<lparr> state := fulfilled, result := VInt 1 \<rparr>)
     empty_world
   = Ok ((registered (Exec [] Returns) [0, 4, 3] [2, 1])
            \<lparr> state := fulfilled, result := VPromise 0, wg := 0 \<rparr>,
         \<lparr> heap = [after_reject demo_env During_Await [2, 1] (Some (errors_New ''ERROR!''))],
           log = [Then_call 0 (VInt 1), Then_call 4 (VInt 2),
                  Catch_call 2 (Some (errors_New ''ERROR!'')),
                  Catch_call 1 (Some (errors_New ''ERROR!''))] \<rparr>,
         True)"
  by (simp add: registered_def empty_world_def demo_env_def call_then_def flatten_def New_def
        after_reject_def chain_result_def nested_defs)

lemma demo_no_short_circuit:
  "then_loop (call_then demo_env) (flatten demo_env During_Await) [0, 1] 0
     ((registered (Exec [] Returns) [0, 1] [2])\<lparr> state := fulfilled, result := VInt 2 \<rparr>)
     empty_world
   = Ok ((registered (Exec [] Returns) [0, 1] [2])
            \<lparr> state := fulfilled, result := VNil, wg := 1 \<rparr>,
         \<lparr> heap = [], log = [Then_call 0 (VInt 2), Then_call 1 (VInt 3)] \<rparr>,
         False)"
  by (simp add: registered_def empty_world_def demo_env_def call_then_def flatten_def wg_Done_def)

theorem completion_accounting_witness:
  "heap_ok empty_world
   \<and> state (registered (Exec [] Returns) [0, 1] [2]) = pending
   \<and> state (registered (Exec [] Returns) [0, 4, 3] [2, 1]) = pending
   \<and> (\<exists>p' w'. u_reject demo_env (registered (Exec [] Returns) [0, 1] [2])
                 (Some (errors_New ''x'')) empty_world = Ok (p', w')
         \<and> wg p' = 0
         \<and> (\<exists>evs. log w' = log empty_world @ evs \<and> then_names evs = [] \<and> catch_names evs = [2]))
   \<and> (\<exists>p' w'. u_resolve demo_env During_Await (registered (Exec [] Returns) [0, 1] [2])
                 (VInt 2) empty_world = Ok (p', w')
         \<and> \<not> returned_early demo_env During_Await (registered (Exec [] Returns) [0, 1] [2])
                 (VInt 2) empty_world
         \<and> wg p' = 0
         \<and> (\<exists>evs. log w' = log empty_world @ evs \<and> then_names evs = [0, 1] \<and> catch_names evs = []))
   \<and> (\<exists>p' w'. u_resolve demo_env During_Await (registered (Exec [] Returns) [0, 4, 3] [2, 1])
                 (VInt 1) empty_world = Ok (p', w')
         \<and> returned_early demo_env During_Await (registered (Exec [] Returns) [0, 4, 3] [2, 1])
                 (VInt 1) empty_world
         \<and> wg p' = 0
         \<and> (\<exists>evs. log w' = log empty_world @ evs
               \<and> (\<exists>k<3. then_names evs = take (Suc k) [0, 4, 3]) \<and> catch_names evs = [2, 1]))"
proof -
  let ?a = "registered (Exec [] Returns) [0, 1] [2]"
  let ?b = "registered (Exec [] Returns) [0, 4, 3] [2, 1]"
  have ok: "heap_ok empty_world"
    by (simp add: heap_ok_def empty_world_def)
  have sa: "state ?a = pending" and sb: "state ?b = pending"
    by (simp_all add: registered_def)
  have ca: "thens ?a = [0, 1]" "catches ?a = [2]" "wg ?a = length (thens ?a) + length (catches ?a)"
    and cb: "thens ?b = [0, 4, 3]" "catches ?b = [2, 1]"
      "wg ?b = length (thens ?b) + length (catches ?b)"
    by (simp_all add: registered_def)
  obtain p1 w1 where r1: "u_reject demo_env ?a (Some (errors_New ''x'')) empty_world = Ok (p1, w1)"
    using reject_user [OF sa, of demo_env "Some (errors_New ''x'')" empty_world] ca(3) by simp
  obtain p2 w2 where r2: "u_resolve demo_env During_Await ?a (VInt 2) empty_world = Ok (p2, w2)"
    using demo_no_short_circuit sa ca
    by (simp add: u_resolve_def resolve_def release_eq)
  have e2: "\<not> returned_early demo_env During_Await ?a (VInt 2) empty_world"
    using demo_no_short_circuit ca by (simp add: returned_early_def)
  obtain p3 w3 where r3: "u_resolve demo_env During_Await ?b (VInt 1) empty_world = Ok (p3, w3)"
    using demo_short_circuit sb cb
    by (simp add: u_resolve_def resolve_def)
  have e3: "returned_early demo_env During_Await ?b (VInt 1) empty_world"
    using demo_short_circuit cb by (simp add: returned_early_def)
  note t1 = completion_accounting [OF ok sa, of demo_env "Some (errors_New ''x'')" p1 w1
              During_Await "VInt 2"]
  note t2 = completion_accounting [OF ok sa, of demo_env None p2 w2 During_Await "VInt 2"]
  note t3 = completion_accounting [OF ok sb, of demo_env None p3 w3 During_Await "VInt 1"]
  from t1 r1 ca have c1: "wg p1 = 0"
    "\<exists>evs. log w1 = log empty_world @ evs \<and> then_names evs = [] \<and> catch_names evs = [2]"
    by simp_all
  from t2 r2 e2 ca have c2: "wg p2 = 0"
    "\<exists>evs. log w2 = log empty_world @ evs \<and> then_names evs = [0, 1] \<and> catch_names evs = []"
    by simp_all
  from t3 r3 e3 cb have c3: "wg p3 = 0"
    "\<exists>evs. log w3 = log empty_world @ evs
       \<and> (\<exists>k<3. then_names evs = take (Suc k) [0, 4, 3]) \<and> catch_names evs = [2, 1]"
    by (simp_all add: numeral_3_eq_3)
  from ok sa sb r1 c1 r2 e2 c2 r3 e3 c3 show ?thesis by blast
qed

end
